theory Spec2Isabelle
  imports Complex_Main "HOL-Library.Word"
begin

section \<open>The compositor engine of compton: a shallow embedding\<close>

text \<open>
  The development follows the C sources: the window code (\<open>win.c\<close>, with the
  lifecycle states \<open>WSTATE_*\<close>) and the session code (\<open>compton.c\<close>).
  C \<open>double\<close> values are read as real numbers, a \<open>NaN\<close> being a separate
  value; X resource ids are natural numbers, \<open>0\<close> being \<open>None\<close> / \<open>XCB_NONE\<close>.
\<close>

subsection \<open>Opacity target of a window (\<open>win_calc_opacity_target\<close>)\<close>

datatype winstate_t =
  WSTATE_UNMAPPING | WSTATE_UNMAPPED | WSTATE_MAPPING | WSTATE_MAPPED
  | WSTATE_FADING | WSTATE_DESTROYING

text \<open>A C \<open>double\<close> that may be \<open>NaN\<close> (only the per-type default opacity is tested for it).\<close>

datatype cdouble = NaN | Dbl real

fun safe_isnan :: "cdouble \<Rightarrow> bool" where
  "safe_isnan NaN = True"
| "safe_isnan (Dbl _) = False"

fun dbl :: "cdouble \<Rightarrow> real" where
  "dbl (Dbl r) = r"
| "dbl NaN = 0"

definition OPAQUE :: nat where
  "OPAQUE = 0xffffffff"

text \<open>
  \<open>struct win\<close>. The sources hold two generations of it: \<open>compton.c\<close> keeps opacities as
  \<open>opacity_t\<close> (32-bit integers up to \<open>OPAQUE\<close>) and a \<open>destroyed\<close> flag, \<open>win.c\<close> keeps
  them as \<open>double\<close> and has the lifecycle \<open>state\<close>. The fields both share are the base
  record, its parameter the type of an opacity; \<open>id\<close> is written \<open>wid\<close>.
\<close>

datatype map_state_t = IsUnmapped | IsUnviewable | IsViewable

record 'o win_base =
  wid :: nat
  opacity :: 'o
  opacity_tgt :: 'o
  ever_damaged :: bool
  map_state :: map_state_t

text \<open>The window of \<open>win.c\<close>; \<open>a_class_input_only\<close> is \<open>w->a._class == XCB_WINDOW_CLASS_INPUT_ONLY\<close>.\<close>

record win = "real win_base" +
  state :: winstate_t
  has_opacity_prop :: bool
  opacity_prop :: nat
  window_type :: nat
  focused :: bool
  a_class_input_only :: bool
  in_openclose :: bool
  reg_ignore_valid :: bool
  flags :: nat
  client_win :: nat
  leader :: nat
  cache_leader :: nat

text \<open>The options of \<open>ps->o\<close> read by the opacity computation.\<close>

record options_opa =
  wintype_option_opacity :: "nat \<Rightarrow> cdouble"
  active_opacity :: real
  inactive_opacity :: real
  inactive_opacity_override :: bool

text \<open>
  \<open>win_is_focused_real(ps, w)\<close> is an inline function of \<open>win.h\<close>; its result is the
  parameter \<open>focused_real\<close>.
\<close>

definition win_calc_opacity_target :: "options_opa \<Rightarrow> bool \<Rightarrow> win \<Rightarrow> real" where
  "win_calc_opacity_target opts focused_real w =
     (if state w = WSTATE_UNMAPPED then 0
      else if state w = WSTATE_UNMAPPING \<or> state w = WSTATE_DESTROYING then 0
      else
        let opacity =
              (if has_opacity_prop w then real (opacity_prop w) / real OPAQUE
               else if \<not> safe_isnan (wintype_option_opacity opts (window_type w))
                 then dbl (wintype_option_opacity opts (window_type w))
               else if focused_real then active_opacity opts
               else if \<not> focused w then inactive_opacity opts
               else 1)
        in if inactive_opacity_override opts \<and> \<not> focused w then inactive_opacity opts
           else opacity)"

text \<open>The priority order of the specification, written as a first-match chain.\<close>

definition opacity_target_spec :: "options_opa \<Rightarrow> bool \<Rightarrow> win \<Rightarrow> real" where
  "opacity_target_spec opts focused_real w =
     (if state w \<in> {WSTATE_UNMAPPED, WSTATE_UNMAPPING, WSTATE_DESTROYING} then 0
      else if inactive_opacity_override opts \<and> \<not> focused w then inactive_opacity opts
      else if has_opacity_prop w then real (opacity_prop w) / 0xFFFFFFFF
      else if wintype_option_opacity opts (window_type w) \<noteq> NaN
        then dbl (wintype_option_opacity opts (window_type w))
      else if focused_real then active_opacity opts
      else if \<not> focused w then inactive_opacity opts
      else 1)"

subsection \<open>Machine integers\<close>

text \<open>
  A C \<open>int\<close> is 32 bits wide; \<open>s32\<close> is the value an arithmetic result takes when it
  is stored in one (two's complement wrap-around). \<open>max2\<close> is the macro of \<open>utils.h\<close>.
\<close>

definition s32 :: "int \<Rightarrow> int" where
  "s32 v = sint (word_of_int v :: 32 word)"

definition max2 :: "int \<Rightarrow> int \<Rightarrow> int" where
  "max2 a b = (if a > b then a else b)"

subsection \<open>Regions\<close>

text \<open>
  A \<open>rect_t\<close> is a pixman box: the points \<open>(px, py)\<close> with \<open>x1 \<le> px < x2\<close> and
  \<open>y1 \<le> py < y2\<close>. A \<open>region_t\<close> is modelled by a list of boxes standing for the union
  of their points (pixman keeps a banded form of the same point set).
\<close>

record rect_t =
  x1 :: int
  y1 :: int
  x2 :: int
  y2 :: int

type_synonym region_t = "rect_t list"



definition good_rect :: "rect_t \<Rightarrow> bool" where
  "good_rect r \<longleftrightarrow> x1 r < x2 r \<and> y1 r < y2 r"

text \<open>\<open>pixman_region32_init_rect\<close>: an empty region unless the box is a good one.\<close>

definition pixman_region32_init_rect :: "int \<Rightarrow> int \<Rightarrow> int \<Rightarrow> int \<Rightarrow> region_t" where
  "pixman_region32_init_rect px py pw ph =
     (let r = \<lparr>x1 = px, y1 = py, x2 = px + pw, y2 = py + ph\<rparr>
      in if good_rect r then [r] else [])"

text \<open>\<open>pixman_region32_init_rects\<close>: the union of the boxes, the empty ones dropped.\<close>

definition pixman_region32_init_rects :: "rect_t list \<Rightarrow> region_t" where
  "pixman_region32_init_rects rs = filter good_rect rs"

definition rect_intersect :: "rect_t \<Rightarrow> rect_t \<Rightarrow> rect_t" where
  "rect_intersect a b =
     \<lparr>x1 = max (x1 a) (x1 b), y1 = max (y1 a) (y1 b),
      x2 = min (x2 a) (x2 b), y2 = min (y2 a) (y2 b)\<rparr>"

definition pixman_region32_intersect :: "region_t \<Rightarrow> region_t \<Rightarrow> region_t" where
  "pixman_region32_intersect ra rb =
     filter good_rect (concat (map (\<lambda>a. map (rect_intersect a) rb) ra))"

subsection \<open>Frame regions of a window (\<open>win_get_region_noframe_local\<close>, \<open>win_get_region_frame_local\<close>)\<close>

text \<open>
  \<open>w->g\<close> is the X geometry reply: \<open>x\<close> and \<open>y\<close> are \<open>int16_t\<close> (read with \<open>sint\<close>),
  \<open>width\<close> and \<open>height\<close> are \<open>uint16_t\<close> (read with \<open>uint\<close>), promoted to \<open>int\<close> where they
  are used. \<open>margin_t\<close> has four \<open>int\<close> fields (\<open>top\<close> is written
  \<open>top_m\<close>). The extents are the result of \<open>win_calc_frame_extents(w)\<close>, an inline
  function of \<open>win.h\<close>, and are a parameter here.
\<close>

record geometry =
  g_x :: "16 word"
  g_y :: "16 word"
  g_width :: "16 word"
  g_height :: "16 word"

record margin_t =
  top_m :: int
  left :: int
  bottom :: int
  right :: int

definition noframe_width :: "geometry \<Rightarrow> margin_t \<Rightarrow> int" where
  "noframe_width g extents =
     max2 (s32 (uint (g_width g) - s32 (left extents + right extents))) 0"

definition noframe_height :: "geometry \<Rightarrow> margin_t \<Rightarrow> int" where
  "noframe_height g extents =
     max2 (s32 (uint (g_height g) - s32 (top_m extents + bottom extents))) 0"

definition win_get_region_noframe_local :: "geometry \<Rightarrow> margin_t \<Rightarrow> region_t" where
  "win_get_region_noframe_local g extents =
     (let px = left extents;
          py = top_m extents;
          width = noframe_width g extents;
          height = noframe_height g extents
      in if width > 0 \<and> height > 0
         then pixman_region32_init_rect px py width height
         else [])"

definition win_get_region_frame_local :: "geometry \<Rightarrow> margin_t \<Rightarrow> region_t" where
  "win_get_region_frame_local g extents =
     (let gw = uint (g_width g); gh = uint (g_height g);
          res = pixman_region32_init_rects
            [\<lparr>x1 = 0, y1 = 0, x2 = gw, y2 = top_m extents\<rparr>,
             \<lparr>x1 = 0, y1 = s32 (gh - bottom extents), x2 = gw, y2 = gh\<rparr>,
             \<lparr>x1 = 0, y1 = 0, x2 = left extents, y2 = gh\<rparr>,
             \<lparr>x1 = s32 (gw - right extents), y1 = 0, x2 = gw, y2 = gh\<rparr>];
          reg_win = pixman_region32_init_rect 0 0 gw gh
      in pixman_region32_intersect res reg_win)"

subsection \<open>The window and the options of \<open>compton.c\<close>\<close>

type_synonym opacity_t = "32 word"

text \<open>
  \<open>paint_pixmap\<close> is \<open>w->paint.pixmap\<close>, \<open>geo\<close> is \<open>w->g\<close> and \<open>flags_c\<close> is \<open>w->flags\<close>
  (the record of \<open>win.c\<close> above has a field of that name). \<open>fade_in_step\<close> and
  \<open>fade_out_step\<close> are \<open>opacity_t\<close> values, \<open>fade_delta\<close> is at least 1 and \<open>alpha_step\<close>
  lies in \<open>[0.01, 1]\<close> once the options are parsed.
\<close>

record win_c = "opacity_t win_base" +
  destroyed :: bool
  fade :: bool
  geo :: geometry
  paint_pixmap :: nat
  paint_excluded :: bool
  fade_last :: bool
  flags_c :: int

record options_c =
  fade_delta :: int
  fade_in_step :: opacity_t
  fade_out_step :: opacity_t
  alpha_step :: real

subsection \<open>Fading (\<open>paint_preprocess\<close>, \<open>run_fade\<close>)\<close>

text \<open>
  Modelled from the spec: \<open>normalize_d_range\<close> and \<open>normalize_d\<close> are inline functions of
  \<open>common.h\<close>; the specification calls them the clamp of a value into a range, and into
  \<open>[0, 1]\<close>.
\<close>

definition normalize_d_range :: "real \<Rightarrow> real \<Rightarrow> real \<Rightarrow> real" where
  "normalize_d_range d lo hi = (if d > hi then hi else if d < lo then lo else d)"


text \<open>The conversion of a \<open>double\<close> to an integer type truncates towards zero.\<close>

definition c_trunc :: "real \<Rightarrow> int" where
  "c_trunc d = (if d < 0 then \<lceil>d\<rceil> else \<lfloor>d\<rfloor>)"

definition to_opacity_t :: "real \<Rightarrow> opacity_t" where
  "to_opacity_t d = word_of_int (c_trunc d)"

text \<open>
  The head of \<open>paint_preprocess\<close>: the number of fade steps since \<open>ps->fade_time\<close> and the
  new \<open>ps->fade_time\<close>. \<open>tol\<close> is the constant \<open>FADE_DELTA_TOLERANCE\<close> of \<open>common.h\<close>,
  \<open>now\<close> the result of \<open>get_time_ms()\<close>; times are \<open>time_ms_t\<close> values, read as integers.
\<close>

definition paint_preprocess_steps :: "real \<Rightarrow> options_c \<Rightarrow> int \<Rightarrow> int \<Rightarrow> int \<times> int" where
  "paint_preprocess_steps tol opts now fade_time =
     (let steps = (if fade_time \<noteq> 0
                   then c_trunc ((real_of_int (now - fade_time) + tol * real_of_int (fade_delta opts))
                                 / real_of_int (fade_delta opts))
                   else 0);
          reset = (fade_time = 0 \<or> steps < 0);
          fade_time1 = (if reset then now else fade_time);
          steps1 = (if reset then 0 else steps)
      in (steps1, fade_time1 + steps1 * fade_delta opts))"

text \<open>
  \<open>run_fade\<close>, on the pair of \<open>ps->idling\<close> and the window. The arithmetic is done in
  \<open>double\<close> and stored back into the \<open>opacity_t\<close> field.
\<close>

definition run_fade :: "options_c \<Rightarrow> bool \<times> win_c \<Rightarrow> nat \<Rightarrow> bool \<times> win_c" where
  "run_fade opts iw steps =
     (let idling = fst iw; w = snd iw in
      if opacity w = opacity_tgt w then (idling, w)
      else
        let w1 =
          (if \<not> fade w then w\<lparr>opacity := opacity_tgt w\<rparr>
           else if steps \<noteq> 0 then
             (if opacity w < opacity_tgt w
              then w\<lparr>opacity := to_opacity_t (normalize_d_range
                     (real (unat (opacity w)) + real (unat (fade_in_step opts)) * real steps)
                     0 (real (unat (opacity_tgt w))))\<rparr>
              else w\<lparr>opacity := to_opacity_t (normalize_d_range
                     (real (unat (opacity w)) - real (unat (fade_out_step opts)) * real steps)
                     (real (unat (opacity_tgt w))) (real OPAQUE))\<rparr>)
           else w)
        in (if opacity w1 \<noteq> opacity_tgt w1 then False else idling, w1))"

text \<open>\<open>run_fade\<close> takes the step count as \<open>unsigned\<close>: the conversion drops all but 32 bits.\<close>

definition to_unsigned :: "int \<Rightarrow> nat" where
  "to_unsigned v = nat (v mod 2 ^ 32)"

text \<open>
  The statements of the window loop of \<open>paint_preprocess\<close> that come before \<open>run_fade\<close>.
  For an unmapped window the flags of the last paint are restored: \<open>w->fade = w->fade_last\<close>
  (\<open>win_set_shadow\<close>, \<open>win_set_invert_color\<close> and \<open>win_set_blur_background\<close> write the
  shadow, the colour inversion and the blur of the window, which the model does not have).
\<close>

definition paint_preprocess_restore :: "win_c \<Rightarrow> win_c" where
  "paint_preprocess_restore w = (if map_state w = IsUnmapped then w\<lparr>fade := fade_last w\<rparr> else w)"

text \<open>
  Modelled from the spec: \<open>win_calc_opacity\<close>, a function of \<open>win.c\<close>, computes the opacity
  target of the window and stores it in \<open>w->opacity_tgt\<close>; \<open>calc\<close> gives the target it
  computes (\<open>win_calc_dim\<close> sets \<open>w->dim\<close>, which the model does not have). \<open>opct\<close> is the
  constant \<open>WFLAG_OPCT_CHANGE\<close> of \<open>common.h\<close>.
\<close>

unbundle bit_operations_syntax

definition paint_preprocess_opct :: "int \<Rightarrow> (win_c \<Rightarrow> opacity_t) \<Rightarrow> win_c \<Rightarrow> win_c" where
  "paint_preprocess_opct opct calc w =
     (if opct AND flags_c w \<noteq> 0 then w\<lparr>opacity_tgt := calc w\<rparr> else w)"

text \<open>
  One fade tick of \<open>paint_preprocess\<close>: the step computation, then, for every window of
  the list, the statements of the loop up to \<open>run_fade\<close>. The result is the new
  \<open>fade_time\<close>, \<open>idling\<close> and the windows as \<open>run_fade\<close> leaves them; the paint decision
  that follows in the loop is the subject of the next subsection.
\<close>

fun paint_preprocess_windows ::
  "int \<Rightarrow> (win_c \<Rightarrow> opacity_t) \<Rightarrow> options_c \<Rightarrow> nat \<Rightarrow> bool \<Rightarrow> win_c list
   \<Rightarrow> bool \<times> win_c list" where
  "paint_preprocess_windows opct calc opts steps idling [] = (idling, [])"
| "paint_preprocess_windows opct calc opts steps idling (w # ws) =
     (let w0 = paint_preprocess_opct opct calc (paint_preprocess_restore w);
          (idling1, w1) = run_fade opts (idling, w0) steps;
          (idling2, ws1) = paint_preprocess_windows opct calc opts steps idling1 ws
      in (idling2, w1 # ws1))"

definition paint_preprocess_fade ::
  "real \<Rightarrow> int \<Rightarrow> (win_c \<Rightarrow> opacity_t) \<Rightarrow> options_c \<Rightarrow> int
   \<Rightarrow> int \<times> bool \<times> win_c list \<Rightarrow> int \<times> bool \<times> win_c list" where
  "paint_preprocess_fade tol opct calc opts now ps =
     (let (fade_time, idling, ws) = ps;
          (steps, fade_time1) = paint_preprocess_steps tol opts now fade_time;
          (idling1, ws1) = paint_preprocess_windows opct calc opts (to_unsigned steps) idling ws
      in (fade_time1, idling1, ws1))"

text \<open>The step count in the specification's words.\<close>

definition fade_steps_spec :: "int \<Rightarrow> int \<Rightarrow> int \<Rightarrow> int" where
  "fade_steps_spec now last_step_time fade_delta_ms =
     \<lfloor>real_of_int (now - last_step_time) / real_of_int fade_delta_ms\<rfloor>"

text \<open>
  Example values: the default step period, a window fading in, and an unmapped window
  that fades out, its target not yet computed.
\<close>

definition fade_example_opts :: options_c where
  "fade_example_opts = \<lparr>fade_delta = 10, fade_in_step = 1000, fade_out_step = 2000, alpha_step = 3 / 100\<rparr>"

definition fade_example_win :: win_c where
  "fade_example_win = \<lparr>wid = 7, opacity = 5000, opacity_tgt = 7500, ever_damaged = True,
     map_state = IsViewable, destroyed = False, fade = True,
     geo = \<lparr>g_x = 0, g_y = 0, g_width = 10, g_height = 10\<rparr>,
     paint_pixmap = 1, paint_excluded = False, fade_last = False, flags_c = 0\<rparr>"

definition fade_example_unmapped :: win_c where
  "fade_example_unmapped = \<lparr>wid = 8, opacity = 5000, opacity_tgt = 5000, ever_damaged = True,
     map_state = IsUnmapped, destroyed = False, fade = False,
     geo = \<lparr>g_x = 0, g_y = 0, g_width = 10, g_height = 10\<rparr>,
     paint_pixmap = 1, paint_excluded = False, fade_last = True, flags_c = 4\<rparr>"


subsection \<open>The paint decision of \<open>paint_preprocess\<close>\<close>














subsection \<open>Restacking (\<open>restack_win\<close>)\<close>

text \<open>
  \<open>ps->list\<close> is the window stack, topmost window first, linked through \<open>next\<close>. It is
  modelled by the list of its windows; a pointer to a window of the stack is the
  window's position, and a slot \<open>win **\<close> is the position it points at, the length of the
  list for the \<open>next\<close> field of the last window.

  \<open>find_slot\<close> is the loop \<open>for (prev = &ps->list; *prev; prev = &(*prev)->next)\<close> that
  breaks at the first window satisfying the test.
\<close>

fun find_slot :: "('a \<Rightarrow> bool) \<Rightarrow> 'a list \<Rightarrow> nat" where
  "find_slot P [] = 0"
| "find_slot P (v # vs) = (if P v then 0 else Suc (find_slot P vs))"

text \<open>
  The three pointer assignments \<open>*prev_old = w->next; w->next = *prev; *prev = w\<close> for
  the window at position \<open>i\<close> and the slot \<open>j\<close>. When the slot is the window's own \<open>next\<close>
  field the window ends up unhooked and pointing at itself.
\<close>

definition relink :: "'a list \<Rightarrow> nat \<Rightarrow> nat \<Rightarrow> 'a list" where
  "relink lst i j =
     (let w = lst ! i; rest = take i lst @ drop (Suc i) lst
      in if j = i then lst
         else if j = Suc i then rest
         else if j < i then take j rest @ w # drop j rest
         else take (j - 1) rest @ w # drop (j - 1) rest)"

definition old_above :: "win_c list \<Rightarrow> nat \<Rightarrow> nat" where
  "old_above lst i = (if Suc i < length lst then wid (lst ! Suc i) else 0)"

text \<open>
  \<open>restack_win\<close> for the window at position \<open>i\<close>. The result is the stack and whether the
  failure message was printed. The call of \<open>update_reg_ignore_expire\<close> (\<open>compton.h\<close>) at
  its head touches \<open>ps->reg_ignore_expire\<close> only and is left out.
\<close>

definition restack_win :: "win_c list \<Rightarrow> nat \<Rightarrow> nat \<Rightarrow> win_c list \<times> bool" where
  "restack_win lst i new_above =
     (if old_above lst i \<noteq> new_above then
        (let prev_old = i;
             prev = find_slot (\<lambda>v. wid v = new_above \<and> \<not> destroyed v) lst;
             found = (prev < length lst)
         in if new_above \<noteq> 0 \<and> \<not> found then (lst, True)
            else (relink lst prev_old prev, False))
      else (lst, False))"

text \<open>Example windows of a stack: an id and the \<open>destroyed\<close> flag.\<close>

definition stack_example_win :: "nat \<Rightarrow> bool \<Rightarrow> win_c" where
  "stack_example_win i d = \<lparr>wid = i, opacity = 0, opacity_tgt = 0, ever_damaged = False,
     map_state = IsViewable, destroyed = d, fade = False,
     geo = \<lparr>g_x = 0, g_y = 0, g_width = 1, g_height = 1\<rparr>,
     paint_pixmap = 0, paint_excluded = False, fade_last = False, flags_c = 0\<rparr>"

subsection \<open>The session of \<open>win.c\<close>\<close>

text \<open>
  The windows are objects on the heap: \<open>wins\<close> gives the \<open>struct win\<close> at an address.
  \<open>ps->window_stack\<close> is the list of the addresses linked through \<open>next\<close>, topmost
  first. \<open>ps->windows\<close> is the hash table keyed by window id; it is modelled by the list
  of its items in the order \<open>HASH_ITER2\<close> visits them (the order of insertion).
  \<open>redirected\<close> belongs to both generations of the session.
\<close>

record session_base =
  redirected :: bool

record session = session_base +
  wins :: "nat \<Rightarrow> win"
  window_stack :: "nat list"
  windows :: "nat list"
  active_win :: "nat option"
  overlay :: nat

definition upd_win :: "session \<Rightarrow> nat \<Rightarrow> (win \<Rightarrow> win) \<Rightarrow> session" where
  "upd_win ps a f = ps\<lparr>wins := (wins ps)(a := f (wins ps a))\<rparr>"

text \<open>
  \<open>HASH_FIND_INT(ps->windows, &id, w)\<close>, the item of the hash table with the key \<open>id\<close>, and
  \<open>find_win\<close>. The result of \<open>find_win\<close> is \<open>None\<close> when
  \<open>assert(w == NULL || w->state != WSTATE_DESTROYING)\<close> fails, and \<open>Some r\<close> when it returns
  \<open>r\<close> (\<open>None\<close> for \<open>NULL\<close>).
\<close>

definition hash_find_int :: "session \<Rightarrow> nat \<Rightarrow> nat option" where
  "hash_find_int ps i = find (\<lambda>a. wid (wins ps a) = i) (windows ps)"

definition find_win :: "session \<Rightarrow> nat \<Rightarrow> nat option option" where
  "find_win ps i =
     (if i = 0 then Some None
      else
        (case hash_find_int ps i of
           None \<Rightarrow> Some None
         | Some a \<Rightarrow> if state (wins ps a) \<noteq> WSTATE_DESTROYING then Some (Some a) else None))"

text \<open>\<open>find_toplevel\<close>: the first item of the hash table with that client window.\<close>

definition find_toplevel :: "session \<Rightarrow> nat \<Rightarrow> nat option" where
  "find_toplevel ps i =
     (if i = 0 then None else find (\<lambda>a. client_win (wins ps a) = i) (windows ps))"

subsection \<open>Leader resolution (\<open>win_get_leader_raw\<close>)\<close>

text \<open>
  \<open>maxr\<close> is the constant \<open>WIN_GET_LEADER_MAX_RECURSION\<close> of \<open>win.h\<close>. The function
  writes the leader cache of the windows it visits; the result is the leader and the
  session after the call.
\<close>

function win_get_leader_raw :: "int \<Rightarrow> session \<Rightarrow> nat \<Rightarrow> int \<Rightarrow> nat \<times> session" where
  "win_get_leader_raw maxr ps a recursions =
     (let w = wins ps a in
      if cache_leader w = 0 \<and> (client_win w \<noteq> 0 \<or> leader w \<noteq> 0) then
        (let c = (if leader w \<noteq> 0 then leader w else client_win w);
             ps1 = upd_win ps a (\<lambda>v. v\<lparr>cache_leader := c\<rparr>)
         in if c \<noteq> 0 \<and> c \<noteq> client_win w then
              (case find_toplevel ps1 c of
                 Some wp \<Rightarrow>
                   if recursions > maxr then (0, ps1)
                   else (let r = win_get_leader_raw maxr ps1 wp (recursions + 1)
                         in (fst r, upd_win (snd r) a (\<lambda>v. v\<lparr>cache_leader := fst r\<rparr>)))
               | None \<Rightarrow> (c, ps1))
            else (c, ps1))
      else (cache_leader w, ps))"
  by pat_completeness auto
termination
  by (relation "measure (\<lambda>(maxr, ps, a, recursions). nat (maxr + 1 - recursions))") auto

text \<open>
  The number of nested invocations of \<open>win_get_leader_raw\<close> a call makes, itself
  included: the same recursion, counting.
\<close>

function win_get_leader_depth :: "int \<Rightarrow> session \<Rightarrow> nat \<Rightarrow> int \<Rightarrow> nat" where
  "win_get_leader_depth maxr ps a recursions =
     (let w = wins ps a in
      if cache_leader w = 0 \<and> (client_win w \<noteq> 0 \<or> leader w \<noteq> 0) then
        (let c = (if leader w \<noteq> 0 then leader w else client_win w);
             ps1 = upd_win ps a (\<lambda>v. v\<lparr>cache_leader := c\<rparr>)
         in if c \<noteq> 0 \<and> c \<noteq> client_win w then
              (case find_toplevel ps1 c of
                 Some wp \<Rightarrow>
                   if recursions > maxr then 1
                   else Suc (win_get_leader_depth maxr ps1 wp (recursions + 1))
               | None \<Rightarrow> 1)
            else 1)
      else 1)"
  by pat_completeness auto
termination
  by (relation "measure (\<lambda>(maxr, ps, a, recursions). nat (maxr + 1 - recursions))") auto

declare win_get_leader_raw.simps [simp del]

declare win_get_leader_depth.simps [simp del]

text \<open>
  Example sessions: a window created by \<open>add_win\<close> with the given id, client window,
  leader and leader cache; two windows whose leaders name each other's client window.
\<close>

definition leader_example_win :: "nat \<Rightarrow> nat \<Rightarrow> nat \<Rightarrow> nat \<Rightarrow> win" where
  "leader_example_win i c l k = \<lparr>wid = i, opacity = 0, opacity_tgt = 0, ever_damaged = False,
     map_state = IsUnmapped, state = WSTATE_UNMAPPED, has_opacity_prop = False,
     opacity_prop = OPAQUE, window_type = 0, focused = False, a_class_input_only = False,
     in_openclose = True, reg_ignore_valid = False, flags = 0,
     client_win = c, leader = l, cache_leader = k\<rparr>"

definition leader_example_session :: "win \<Rightarrow> win \<Rightarrow> session" where
  "leader_example_session u v = \<lparr>redirected = True,
     wins = (\<lambda>a. if a = 1 then u else v),
     window_stack = [1, 2], windows = [1, 2], active_win = None, overlay = 0\<rparr>"

subsection \<open>Blur kernels (\<open>win_blur_background\<close>)\<close>












subsection \<open>The session of \<open>compton.c\<close>: damage, redirection, the unredirect timeout\<close>

text \<open>
  An \<open>XserverRegion\<close> is \<open>None\<close> or the region it names. \<open>switch_t\<close> is the enumeration
  \<open>OFF\<close>, \<open>ON\<close>, \<open>UNSET\<close> of \<open>common.h\<close>; \<open>OFF\<close> is its zero, the value \<open>!\<close> makes true.
  The fields \<open>tmout_unredir_*\<close> are those of the timeout \<open>ps->tmout_unredir\<close>.
\<close>

datatype switch_t = OFF | ON | UNSET

record options_redir =
  unredir_if_possible :: bool
  unredir_if_possible_delay :: int
  redirected_force :: switch_t
  stoppaint_force :: switch_t
  resize_damage :: int

record session_c = session_base +
  all_damage :: "region_t option"
  screen_reg :: "region_t option"
  ev_received :: bool
  tmout_unredir_enabled :: bool
  tmout_unredir_firstrun :: int
  tmout_unredir_lastrun :: int
  tmout_unredir_hit :: bool
  reg_ignore_expire :: bool
  idling :: bool
  fade_time :: int

text \<open>
  \<open>add_damage\<close>. \<open>free_region\<close> (\<open>compton.h\<close>) destroys the region and sets the variable to
  \<open>None\<close>; the union of two regions is the list of the boxes of both.
\<close>

definition add_damage :: "session_c \<Rightarrow> region_t option \<Rightarrow> session_c" where
  "add_damage ps damage =
     (let damage1 = (if \<not> redirected ps then None else damage)
      in case damage1 of
           None \<Rightarrow> ps
         | Some d \<Rightarrow>
             (case all_damage ps of
                Some a \<Rightarrow> ps\<lparr>all_damage := Some (a @ d)\<rparr>
              | None \<Rightarrow> ps\<lparr>all_damage := Some d\<rparr>))"

definition force_repaint :: "session_c \<Rightarrow> session_c" where
  "force_repaint ps =
     (case screen_reg ps of
        Some reg \<Rightarrow> add_damage (ps\<lparr>ev_received := True\<rparr>) (Some reg)
      | None \<Rightarrow> ps)"

text \<open>\<open>redir_start\<close> and \<open>redir_stop\<close>; the X requests they send are not modelled.\<close>

definition redir_start :: "session_c \<Rightarrow> session_c" where
  "redir_start ps = (if \<not> redirected ps then force_repaint (ps\<lparr>redirected := True\<rparr>) else ps)"

definition redir_stop :: "session_c \<Rightarrow> session_c" where
  "redir_stop ps = (if redirected ps then ps\<lparr>redirected := False\<rparr> else ps)"

text \<open>
  The timeout. \<open>due\<close> is the outcome of the comparison \<open>newrun <= max\<close> in \<open>timeout_run\<close>
  (\<open>timeout_get_newrun\<close> and \<open>TIMEOUT_RUN_TOLERANCE\<close> are not in the sources).
\<close>

definition timeout_reset :: "int \<Rightarrow> session_c \<Rightarrow> session_c" where
  "timeout_reset now ps = ps\<lparr>tmout_unredir_firstrun := now, tmout_unredir_lastrun := now\<rparr>"

definition tmout_unredir_callback :: "session_c \<Rightarrow> session_c" where
  "tmout_unredir_callback ps = ps\<lparr>tmout_unredir_hit := True, tmout_unredir_enabled := False\<rparr>"

definition timeout_invoke :: "int \<Rightarrow> session_c \<Rightarrow> session_c" where
  "timeout_invoke now ps = tmout_unredir_callback (ps\<lparr>tmout_unredir_lastrun := now\<rparr>)"

definition timeout_run :: "bool \<Rightarrow> int \<Rightarrow> session_c \<Rightarrow> session_c" where
  "timeout_run due now ps =
     (if tmout_unredir_enabled ps then (if due then timeout_invoke now ps else ps) else ps)"

text \<open>
  What the window loop of \<open>paint_preprocess\<close> reads of a window when it traces the
  unredirect condition: the local \<open>to_paint\<close>, the results of \<open>win_is_solid\<close>,
  \<open>win_has_frame\<close> and \<open>win_is_fullscreen\<close> (\<open>compton.h\<close>), and two fields.
\<close>

record win_unredir =
  to_paint :: bool
  win_is_solid :: bool
  frame_opacity :: real
  win_has_frame :: bool
  win_is_fullscreen :: bool
  unredir_if_possible_excluded :: bool

text \<open>The loop, on the pair of \<open>is_highest\<close> and \<open>unredir_possible\<close>.\<close>

fun unredir_scan :: "options_redir \<Rightarrow> bool \<times> bool \<Rightarrow> win_unredir list \<Rightarrow> bool \<times> bool" where
  "unredir_scan opts hu [] = hu"
| "unredir_scan opts hu (w # ws) =
     (let is_highest = fst hu; unredir_possible = snd hu
      in if to_paint w \<and> unredir_if_possible opts \<and> is_highest
         then unredir_scan opts
                (False,
                 if win_is_solid w \<and> (frame_opacity w = 0 \<or> \<not> win_has_frame w)
                    \<and> win_is_fullscreen w \<and> \<not> unredir_if_possible_excluded w
                 then True else unredir_possible) ws
         else unredir_scan opts hu ws)"

text \<open>The value of \<open>unredir_possible\<close> after the overrides that follow the loop.\<close>

definition unredir_decision :: "options_redir \<Rightarrow> win_unredir list \<Rightarrow> session_c \<Rightarrow> bool" where
  "unredir_decision opts ws ps =
     (let hu = unredir_scan opts (True, False) ws;
          is_highest = fst hu;
          forced = (if redirected_force opts \<noteq> UNSET then redirected_force opts = OFF
                    else snd hu)
      in if unredir_if_possible opts \<and> is_highest \<and> \<not> redirected ps then True else forced)"

text \<open>The tail of \<open>paint_preprocess\<close>: redirect, unredirect or arm the timeout.\<close>

definition paint_preprocess_redir ::
  "options_redir \<Rightarrow> int \<Rightarrow> win_unredir list \<Rightarrow> session_c \<Rightarrow> session_c" where
  "paint_preprocess_redir opts now ws ps =
     (if unredir_decision opts ws ps then
        (if redirected ps then
           (if unredir_if_possible_delay opts = 0 \<or> tmout_unredir_hit ps then redir_stop ps
            else if \<not> tmout_unredir_enabled ps
              then (timeout_reset now ps)\<lparr>tmout_unredir_enabled := True\<rparr>
            else ps)
         else ps)
      else redir_start (ps\<lparr>tmout_unredir_enabled := False\<rparr>))"

text \<open>
  The rest of an iteration of the main loop of \<open>session_run\<close>, after \<open>paint_preprocess\<close>:
  whether \<open>paint_all\<close> is called, and the session. \<open>resize_region\<close> (\<open>compton.h\<close>) is the
  parameter \<open>resize\<close>; a region is empty when it has no rectangle.
\<close>

definition session_run_paint ::
  "options_redir \<Rightarrow> (int \<Rightarrow> region_t \<Rightarrow> region_t) \<Rightarrow> session_c \<Rightarrow> bool \<times> session_c" where
  "session_run_paint opts resize ps =
     (let ps1 = ps\<lparr>tmout_unredir_hit := False\<rparr>;
          ps2 = (if \<not> redirected ps1 \<or> stoppaint_force opts = ON
                 then ps1\<lparr>all_damage := None\<rparr> else ps1);
          ps3 = ps2\<lparr>all_damage := map_option (resize (resize_damage opts)) (all_damage ps2)\<rparr>;
          paint = (case all_damage ps3 of None \<Rightarrow> False | Some reg \<Rightarrow> reg \<noteq> []);
          ps4 = (if paint then ps3\<lparr>reg_ignore_expire := False, all_damage := None\<rparr> else ps3)
      in (paint, if idling ps4 then ps4\<lparr>fade_time := 0\<rparr> else ps4))"

text \<open>
  What happens in one iteration before \<open>paint_preprocess\<close>: the timeouts are run, the
  events add damage; then the time and the windows \<open>paint_preprocess\<close> sees.
\<close>

record iteration_input =
  tmout_due :: bool
  time_ms :: int
  damages :: "region_t option list"
  seen :: "win_unredir list"

text \<open>
  What an iteration did: whether the timeout fired, the decision of \<open>paint_preprocess\<close>,
  whether it unredirected the screen, whether the screen was redirected when the paint
  was decided, and whether \<open>paint_all\<close> was called.
\<close>

record iteration_output =
  fired :: bool
  decision :: bool
  was_redirected :: bool
  stopped :: bool
  redirected_at_paint :: bool
  painted :: bool

definition session_run_iteration ::
  "options_redir \<Rightarrow> (int \<Rightarrow> region_t \<Rightarrow> region_t) \<Rightarrow> iteration_input \<Rightarrow> session_c
   \<Rightarrow> iteration_output \<times> session_c" where
  "session_run_iteration opts resize inp ps =
     (let ps1 = timeout_run (tmout_due inp) (time_ms inp) ps;
          ps2 = foldl add_damage ps1 (damages inp);
          ps3 = paint_preprocess_redir opts (time_ms inp) (seen inp) (ps2\<lparr>idling := True\<rparr>);
          r = session_run_paint opts resize ps3
      in (\<lparr>fired = (tmout_unredir_enabled ps \<and> tmout_due inp),
            decision = unredir_decision opts (seen inp) ps2,
            was_redirected = redirected ps2,
            stopped = (redirected ps2 \<and> \<not> redirected ps3),
            redirected_at_paint = redirected ps3,
            painted = fst r\<rparr>, snd r))"

fun session_run_loop ::
  "options_redir \<Rightarrow> (int \<Rightarrow> region_t \<Rightarrow> region_t) \<Rightarrow> iteration_input list \<Rightarrow> session_c
   \<Rightarrow> iteration_output list" where
  "session_run_loop opts resize [] ps = []"
| "session_run_loop opts resize (inp # inps) ps =
     (let r = session_run_iteration opts resize inp ps
      in fst r # session_run_loop opts resize inps (snd r))"

text \<open>
  Between two iterations the timeout has not hit (\<open>session_run\<close> clears the flag after
  each \<open>paint_preprocess\<close>), and it is armed only while the screen is redirected.
\<close>

definition tmout_unredir_idle :: "session_c \<Rightarrow> bool" where
  "tmout_unredir_idle ps \<longleftrightarrow>
     \<not> tmout_unredir_hit ps \<and> (if tmout_unredir_enabled ps then redirected ps else True)"

text \<open>The unredirect condition in the specification's words.\<close>

definition unredir_cond_spec :: "win_unredir list \<Rightarrow> bool" where
  "unredir_cond_spec ws =
     (case filter to_paint ws of
        [] \<Rightarrow> False
      | w # _ \<Rightarrow> win_is_solid w \<and> win_is_fullscreen w \<and> \<not> unredir_if_possible_excluded w)"

text \<open>
  Example values: unredirection after 200 ms; a session that has just started; a solid
  fullscreen window and a translucent one.
\<close>

definition redir_example_opts :: options_redir where
  "redir_example_opts = \<lparr>unredir_if_possible = True, unredir_if_possible_delay = 200,
     redirected_force = UNSET, stoppaint_force = UNSET, resize_damage = 0\<rparr>"

definition redir_example_session :: "bool \<Rightarrow> session_c" where
  "redir_example_session r = \<lparr>redirected = r, all_damage = None,
     screen_reg = Some [\<lparr>x1 = 0, y1 = 0, x2 = 1920, y2 = 1080\<rparr>], ev_received = False,
     tmout_unredir_enabled = False, tmout_unredir_firstrun = 0, tmout_unredir_lastrun = 0,
     tmout_unredir_hit = False, reg_ignore_expire = False, idling = False, fade_time = 0\<rparr>"

definition redir_example_win :: "bool \<Rightarrow> win_unredir" where
  "redir_example_win solid = \<lparr>to_paint = True, win_is_solid = solid, frame_opacity = 0,
     win_has_frame = False, win_is_fullscreen = True, unredir_if_possible_excluded = False\<rparr>"

text \<open>
  Two example runs of the main loop. In the first a solid fullscreen window is on top:
  the timeout is armed, and after it is due the screen is unredirected. In the second
  the delay is 0: damage arrives under a solid fullscreen window, then under a
  translucent one.
\<close>

definition redir_example_run :: "iteration_input list" where
  "redir_example_run =
     [\<lparr>tmout_due = False, time_ms = 0, damages = [], seen = [redir_example_win True]\<rparr>,
      \<lparr>tmout_due = True, time_ms = 200, damages = [], seen = [redir_example_win True]\<rparr>]"

definition paint_example_run :: "iteration_input list" where
  "paint_example_run =
     [\<lparr>tmout_due = False, time_ms = 0,
        damages = [Some [\<lparr>x1 = 0, y1 = 0, x2 = 10, y2 = 10\<rparr>]], seen = [redir_example_win True]\<rparr>,
      \<lparr>tmout_due = False, time_ms = 10,
        damages = [Some [\<lparr>x1 = 0, y1 = 0, x2 = 10, y2 = 10\<rparr>]], seen = [redir_example_win False]\<rparr>]"

subsection \<open>The window registry and the lifecycle (\<open>add_win\<close>, \<open>unmap_win\<close>, fading)\<close>

text \<open>\<open>win_def\<close>, the initial value \<open>add_win\<close> gives a window.\<close>

definition win_def :: win where
  "win_def = \<lparr>wid = 0, opacity = 0, opacity_tgt = 0, ever_damaged = False,
     map_state = IsUnmapped, state = WSTATE_UNMAPPED, has_opacity_prop = False,
     opacity_prop = OPAQUE, window_type = 0, focused = False, a_class_input_only = False,
     in_openclose = True, reg_ignore_valid = False, flags = 0,
     client_win = 0, leader = 0, cache_leader = 0\<rparr>"

text \<open>
  The new window is linked in front of the window \<open>pw\<close> (through \<open>pw->prev\<close>), a window
  of the hash table and so of the stack.
\<close>

definition insert_before :: "nat \<Rightarrow> nat \<Rightarrow> nat list \<Rightarrow> nat list" where
  "insert_before new pw st =
     (let j = find_slot (\<lambda>b. b = pw) st in take j st @ new # drop j st)"

text \<open>
  \<open>add_win\<close>. \<open>a\<close> is the reply to \<open>xcb_get_window_attributes\<close> (the map state and whether
  the class is \<open>InputOnly\<close>), \<open>damage_ok\<close> whether the damage object could be created,
  \<open>new\<close> the address \<open>cmalloc\<close> returns. The result is \<open>None\<close> when the assertion of
  \<open>find_win\<close> fails, or \<open>assert(w)\<close> for a \<open>prev\<close> that is not in the hash table.
\<close>

definition add_win ::
  "session \<Rightarrow> nat \<Rightarrow> nat \<Rightarrow> (map_state_t \<times> bool) option \<Rightarrow> bool \<Rightarrow> nat \<Rightarrow> session option" where
  "add_win ps i prev a damage_ok new =
     (if i = overlay ps then Some ps
      else if find_win ps i = None then None
      else if find_win ps i \<noteq> Some None then Some ps
      else
        (case a of
           None \<Rightarrow> Some ps
         | Some (ms, input_only) \<Rightarrow>
             if ms = IsUnviewable then Some ps
             else if \<not> input_only \<and> \<not> damage_ok then Some ps
             else
               (let w = win_def\<lparr>wid := i, map_state := ms, a_class_input_only := input_only\<rparr>;
                    ps1 = ps\<lparr>wins := (wins ps)(new := w)\<rparr>
                in if prev \<noteq> 0 then
                     (case hash_find_int ps prev of
                        None \<Rightarrow> None
                      | Some pw \<Rightarrow>
                          Some (ps1\<lparr>window_stack := insert_before new pw (window_stack ps),
                                     windows := windows ps @ [new]\<rparr>))
                   else Some (ps1\<lparr>window_stack := new # window_stack ps,
                                   windows := windows ps @ [new]\<rparr>))))"

definition finish_unmap_win :: "session \<Rightarrow> nat \<Rightarrow> session" where
  "finish_unmap_win ps a =
     upd_win ps a (\<lambda>w. w\<lparr>ever_damaged := False, reg_ignore_valid := False,
                          state := WSTATE_UNMAPPED, flags := 0\<rparr>)"

text \<open>\<open>w->next\<close>: the window after \<open>a\<close> in the stack.\<close>

definition stack_next :: "session \<Rightarrow> nat \<Rightarrow> nat option" where
  "stack_next ps a =
     (case dropWhile (\<lambda>b. b \<noteq> a) (window_stack ps) of
        _ # n # _ \<Rightarrow> Some n
      | _ \<Rightarrow> None)"

definition finish_destroy_win :: "session \<Rightarrow> nat \<Rightarrow> session" where
  "finish_destroy_win ps a =
     (let ps1 = (if state (wins ps a) \<noteq> WSTATE_UNMAPPED then finish_unmap_win ps a else ps);
          ps2 = (case stack_next ps1 a of
                   Some n \<Rightarrow> upd_win ps1 n (\<lambda>w. w\<lparr>reg_ignore_valid := False\<rparr>)
                 | None \<Rightarrow> ps1);
          ps3 = ps2\<lparr>window_stack := remove1 a (window_stack ps2)\<rparr>
      in if active_win ps3 = Some a then ps3\<lparr>active_win := None\<rparr> else ps3)"

definition finish_map_win :: "session \<Rightarrow> nat \<Rightarrow> session" where
  "finish_map_win ps a = upd_win ps a (\<lambda>w. w\<lparr>in_openclose := False, state := WSTATE_MAPPED\<rparr>)"

text \<open>
  \<open>win_check_fade_finished\<close> and \<open>win_skip_fading\<close>. The result is \<open>None\<close> when
  \<open>assert(w->opacity_tgt == w->opacity)\<close> fails for a window that is not fading.
\<close>

definition win_check_fade_finished :: "session \<Rightarrow> nat \<Rightarrow> session option" where
  "win_check_fade_finished ps a =
     (let w = wins ps a in
      if state w = WSTATE_MAPPED \<or> state w = WSTATE_UNMAPPED then
        (if opacity_tgt w = opacity w then Some ps else None)
      else if opacity w = opacity_tgt w then
        (case state w of
           WSTATE_UNMAPPING \<Rightarrow> Some (finish_unmap_win ps a)
         | WSTATE_DESTROYING \<Rightarrow> Some (finish_destroy_win ps a)
         | WSTATE_MAPPING \<Rightarrow> Some (finish_map_win ps a)
         | WSTATE_FADING \<Rightarrow> Some (upd_win ps a (\<lambda>v. v\<lparr>state := WSTATE_MAPPED\<rparr>))
         | _ \<Rightarrow> Some ps)
      else Some ps)"

definition win_skip_fading :: "session \<Rightarrow> nat \<Rightarrow> session option" where
  "win_skip_fading ps a =
     (let w = wins ps a in
      if state w = WSTATE_MAPPED \<or> state w = WSTATE_UNMAPPED then
        (if opacity_tgt w = opacity w then Some ps else None)
      else win_check_fade_finished (upd_win ps a (\<lambda>v. v\<lparr>opacity := opacity_tgt v\<rparr>)) a)"

text \<open>
  \<open>unmap_win\<close> for the window at \<open>a\<close>. \<open>focus\<close> is what \<open>win_set_focused(ps, w, false)\<close> does
  to the session (the focus flags and opacity targets of the window and its group);
  \<open>opts\<close> and \<open>focused_real\<close> are what \<open>win_calc_opacity_target\<close> reads. The result is \<open>None\<close>
  when \<open>assert(false)\<close> is reached, for the unmapping of a window in destruction.
  \<open>win_set_focused\<close> writes the focus flags, the opacity targets and the states (from
  \<open>WSTATE_MAPPED\<close> to \<open>WSTATE_FADING\<close>) of windows, \<open>ps->active_win\<close> and
  \<open>ps->active_leader\<close>.
\<close>

definition unmap_win ::
  "options_opa \<Rightarrow> bool \<Rightarrow> (session \<Rightarrow> session) \<Rightarrow> session \<Rightarrow> nat \<Rightarrow> bool \<Rightarrow> session option" where
  "unmap_win opts focused_real focus ps a destroy =
     (let w = wins ps a;
          target_state = (if destroy then WSTATE_DESTROYING else WSTATE_UNMAPPING)
      in if \<not> destroy \<and> a_class_input_only w then Some ps
         else if state w = WSTATE_DESTROYING \<and> \<not> destroy then None
         else if state w = target_state then Some ps
         else
           (let ps1 = (if destroy then ps\<lparr>windows := remove1 a (windows ps)\<rparr> else ps)
            in if state w = WSTATE_UNMAPPED \<or> a_class_input_only w then
                 (if \<not> destroy then Some ps1 else Some (finish_destroy_win ps1 a))
               else
                 (let ps2 = focus ps1;
                      ps3 = upd_win ps2 a
                              (\<lambda>v. v\<lparr>map_state := IsUnmapped, state := target_state\<rparr>);
                      ps4 = upd_win ps3 a
                              (\<lambda>v. v\<lparr>opacity_tgt := win_calc_opacity_target opts focused_real v\<rparr>);
                      ps5 = upd_win ps4 a (\<lambda>v. v\<lparr>in_openclose := destroy\<rparr>)
                  in if \<not> redirected ps5 then win_skip_fading ps5 a else Some ps5)))"

text \<open>
  Everything else the program does to a window (mapping it, stepping its fade, focus and
  property changes) leaves the stack, the hash table, the ids and \<open>ps->redirected\<close> alone
  and neither puts a window into destruction nor takes one out of it.
\<close>

definition touches :: "session \<Rightarrow> session \<Rightarrow> bool" where
  "touches ps ps1 \<longleftrightarrow>
     window_stack ps1 = window_stack ps \<and> windows ps1 = windows ps
     \<and> redirected ps1 = redirected ps
     \<and> (\<forall>a. wid (wins ps1 a) = wid (wins ps a)
            \<and> (state (wins ps1 a) = WSTATE_DESTROYING \<longleftrightarrow> state (wins ps a) = WSTATE_DESTROYING))"

text \<open>
  Modelled from the spec: the events of a session. A window is created (\<open>add_win\<close>); on
  an unmap or a destroy notification the window is looked up by its id (\<open>find_win\<close>) and,
  when it is found, \<open>unmap_win\<close> is called for it; the fade of a window of the stack is
  checked or skipped; something else touches the windows; the screen is redirected or
  unredirected.
\<close>

datatype event =
  Add_win nat nat "(map_state_t \<times> bool) option" bool nat
  | Unmap_win nat bool "session \<Rightarrow> session"
  | Check_fade nat
  | Skip_fading nat
  | Touch "session \<Rightarrow> session"
  | Redirect bool

fun apply_event :: "options_opa \<Rightarrow> bool \<Rightarrow> event \<Rightarrow> session \<Rightarrow> session option" where
  "apply_event opts fr (Add_win i prev a damage_ok new) ps = add_win ps i prev a damage_ok new"
| "apply_event opts fr (Unmap_win i destroy focus) ps =
     (case find_win ps i of
        None \<Rightarrow> None
      | Some None \<Rightarrow> Some ps
      | Some (Some a) \<Rightarrow> unmap_win opts fr focus ps a destroy)"
| "apply_event opts fr (Check_fade a) ps = win_check_fade_finished ps a"
| "apply_event opts fr (Skip_fading a) ps = win_skip_fading ps a"
| "apply_event opts fr (Touch f) ps = Some (f ps)"
| "apply_event opts fr (Redirect b) ps = Some (ps\<lparr>redirected := b\<rparr>)"

text \<open>
  What the environment guarantees of an event: X window ids are not 0 and \<open>cmalloc\<close>
  returns an address that is not a window of the stack; fades are checked for windows
  of the stack.
\<close>

fun event_ok :: "session \<Rightarrow> event \<Rightarrow> bool" where
  "event_ok ps (Add_win i prev a damage_ok new) \<longleftrightarrow> i \<noteq> 0 \<and> new \<notin> set (window_stack ps)"
| "event_ok ps (Unmap_win i destroy focus) \<longleftrightarrow> (\<forall>q. touches q (focus q))"
| "event_ok ps (Check_fade a) \<longleftrightarrow> a \<in> set (window_stack ps)"
| "event_ok ps (Skip_fading a) \<longleftrightarrow> a \<in> set (window_stack ps)"
| "event_ok ps (Touch f) \<longleftrightarrow> touches ps (f ps)"
| "event_ok ps (Redirect b) \<longleftrightarrow> True"

fun run :: "options_opa \<Rightarrow> bool \<Rightarrow> event list \<Rightarrow> session \<Rightarrow> session option" where
  "run opts fr [] ps = Some ps"
| "run opts fr (ev # evs) ps =
     (case apply_event opts fr ev ps of
        None \<Rightarrow> None
      | Some ps1 \<Rightarrow> run opts fr evs ps1)"

fun events_ok :: "options_opa \<Rightarrow> bool \<Rightarrow> event list \<Rightarrow> session \<Rightarrow> bool" where
  "events_ok opts fr [] ps \<longleftrightarrow> True"
| "events_ok opts fr (ev # evs) ps \<longleftrightarrow>
     event_ok ps ev \<and>
     (case apply_event opts fr ev ps of
        None \<Rightarrow> True
      | Some ps1 \<Rightarrow> events_ok opts fr evs ps1)"

definition session_init :: "bool \<Rightarrow> nat \<Rightarrow> session" where
  "session_init r ov = \<lparr>redirected = r, wins = (\<lambda>a. win_def), window_stack = [],
     windows = [], active_win = None, overlay = ov\<rparr>"

text \<open>
  The registry invariant: the stack and the hash table hold no window twice; the windows
  of the hash table are the windows of the stack that are not in destruction; their ids
  are not 0 and differ from each other.
\<close>

definition registry_inv :: "session \<Rightarrow> bool" where
  "registry_inv ps \<longleftrightarrow>
     distinct (window_stack ps) \<and> distinct (windows ps)
     \<and> (\<forall>a. a \<in> set (windows ps) \<longleftrightarrow>
              a \<in> set (window_stack ps) \<and> state (wins ps a) \<noteq> WSTATE_DESTROYING)
     \<and> (\<forall>a \<in> set (windows ps). wid (wins ps a) \<noteq> 0)
     \<and> (\<forall>a \<in> set (windows ps). \<forall>b \<in> set (windows ps).
           wid (wins ps a) = wid (wins ps b) \<longrightarrow> a = b)"

text \<open>
  While the window at \<open>a\<close> is being destroyed (it has left the hash table and its state is
  not yet settled) the invariant holds for all other windows.
\<close>

definition registry_inv_but :: "nat \<Rightarrow> session \<Rightarrow> bool" where
  "registry_inv_but a ps \<longleftrightarrow>
     distinct (window_stack ps) \<and> distinct (windows ps) \<and> a \<notin> set (windows ps)
     \<and> (\<forall>b. b \<noteq> a \<longrightarrow>
            (b \<in> set (windows ps) \<longleftrightarrow>
               b \<in> set (window_stack ps) \<and> state (wins ps b) \<noteq> WSTATE_DESTROYING))
     \<and> (\<forall>b \<in> set (windows ps). wid (wins ps b) \<noteq> 0)
     \<and> (\<forall>b \<in> set (windows ps). \<forall>c \<in> set (windows ps).
           wid (wins ps b) = wid (wins ps c) \<longrightarrow> b = c)"

text \<open>
  An example run with the screen redirected: window \<open>0x10\<close> is created at address 1,
  mapped, and has faded in half way when it is destroyed; then a window \<open>0x10\<close> is
  created again, at address 2, and the fade of the first is checked.
\<close>

definition registry_example_show :: "session \<Rightarrow> session" where
  "registry_example_show q =
     upd_win q 1 (\<lambda>w. w\<lparr>opacity := 1 / 2, opacity_tgt := 1, map_state := IsViewable,
                         state := WSTATE_MAPPING\<rparr>)"

definition registry_example_run :: "event list" where
  "registry_example_run =
     [Add_win 16 0 (Some (IsUnmapped, False)) True 1,
      Touch registry_example_show,
      Unmap_win 16 True (\<lambda>q. q),
      Add_win 16 0 (Some (IsUnmapped, False)) True 2,
      Check_fade 1]"

definition registry_example_opts :: options_opa where
  "registry_example_opts = \<lparr>wintype_option_opacity = (\<lambda>t. NaN), active_opacity = 1,
     inactive_opacity = 1, inactive_opacity_override = False\<rparr>"

section \<open>Properties\<close>

lemma safe_isnan_iff: "safe_isnan d \<longleftrightarrow> d = NaN"
  by (cases d) simp_all

text \<open>
  Claim C1. For every window the opacity target computed by \<open>win_calc_opacity_target\<close>
  is 0 in the states UNMAPPED, UNMAPPING and DESTROYING, and otherwise the first matching
  rule of the priority order: the inactive override for an unfocused window, the
  \<open>_NET_WM_WINDOW_OPACITY\<close> property divided by \<open>0xFFFFFFFF\<close>, the window type's default
  if it is not NaN, \<open>active_opacity\<close> for a really focused window, \<open>inactive_opacity\<close>
  for a window whose focused flag is false, and 1 otherwise.
\<close>

theorem win_calc_opacity_target_priority:
  "win_calc_opacity_target opts focused_real w = opacity_target_spec opts focused_real w"
  by (simp add: win_calc_opacity_target_def opacity_target_spec_def OPAQUE_def
      safe_isnan_iff Let_def)

subsection \<open>Frame regions\<close>






text \<open>
  A window of 100 by 50 whose reported extents (top 40, bottom 30, left 70, right 60)
  exceed it in both directions: the interior is empty, and the frame is the window.
\<close>

lemma win_frame_regions_example:
  "win_get_region_noframe_local \<lparr>g_x = 0, g_y = 0, g_width = 100, g_height = 50\<rparr>
     \<lparr>top_m = 40, left = 70, bottom = 30, right = 60\<rparr> = []
   \<and> win_get_region_frame_local \<lparr>g_x = 0, g_y = 0, g_width = 100, g_height = 50\<rparr>
     \<lparr>top_m = 40, left = 70, bottom = 30, right = 60\<rparr> =
     [\<lparr>x1 = 0, y1 = 0, x2 = 100, y2 = 40\<rparr>, \<lparr>x1 = 0, y1 = 20, x2 = 100, y2 = 50\<rparr>,
      \<lparr>x1 = 0, y1 = 0, x2 = 70, y2 = 50\<rparr>, \<lparr>x1 = 40, y1 = 0, x2 = 100, y2 = 50\<rparr>]"
  by (simp add: win_get_region_noframe_local_def win_get_region_frame_local_def
      noframe_width_def noframe_height_def max2_def s32_def Let_def
      pixman_region32_init_rects_def pixman_region32_init_rect_def
      pixman_region32_intersect_def rect_intersect_def good_rect_def)

subsection \<open>Fading\<close>

text \<open>
  The doubles of \<open>run_fade\<close> hold integers below \<open>2^64\<close>; the clamp returns an exactly
  represented value in every case, so the real-number reading gives the stored result.
\<close>

lemma to_opacity_t_nat: "n < 2 ^ 32 \<Longrightarrow> unat (to_opacity_t (real n)) = n"
  by (simp add: to_opacity_t_def c_trunc_def unat_of_nat take_bit_nat_eq_self)

lemma to_opacity_t_int:
  "0 \<le> z \<Longrightarrow> z < 2 ^ 32 \<Longrightarrow> int (unat (to_opacity_t (real_of_int z))) = z"
  by (simp add: to_opacity_t_def c_trunc_def uint_word_of_int take_bit_int_eq_self)

lemma unat_opacity_bound: "unat (x :: opacity_t) < 2 ^ 32"
  using unsigned_less [of x, where 'a = nat] by simp

lemma clamp_in:
  "normalize_d_range (real a + real s * real n) 0 (real t) = real (min t (a + s * n))"
proof -
  define k where "k = a + s * n"
  have eq: "real a + real s * real n = real k" by (simp add: k_def)
  have "normalize_d_range (real k) 0 (real t) = real (min t k)"
    by (simp add: normalize_d_range_def min_def)
  then show ?thesis by (simp only: eq k_def)
qed

lemma clamp_out:
  assumes "t \<le> a" "a \<le> m"
  shows "normalize_d_range (real a - real s * real n) (real t) (real m)
         = real_of_int (max (int t) (int a - int s * int n))"
proof -
  define z where "z = int a - int s * int n"
  have eq: "real a - real s * real n = real_of_int z" by (simp add: z_def)
  have p: "0 \<le> int s * int n" by simp
  have le: "z \<le> int m" using assms(2) p unfolding z_def by linarith
  have r: "\<not> real_of_int z > real m"
    using le by (metis not_less of_int_le_iff of_int_of_nat_eq)
  have c: "(real_of_int z < real t) = (z < int t)"
    by (metis of_int_less_iff of_int_of_nat_eq)
  have "normalize_d_range (real_of_int z) (real t) (real m) = real_of_int (max (int t) z)"
    unfolding normalize_d_range_def using r c by (simp add: max_def)
  then show ?thesis by (simp only: eq z_def)
qed

lemma run_fade_nofade:
  "\<not> fade w \<Longrightarrow> opacity (snd (run_fade opts (i, w) n)) = opacity_tgt w"
  by (simp add: run_fade_def Let_def)

lemma run_fade_reached:
  "opacity w = opacity_tgt w \<Longrightarrow> run_fade opts (i, w) n = (i, w)"
  by (simp add: run_fade_def Let_def)

lemma run_fade_in:
  assumes "fade w" "opacity w < opacity_tgt w"
  shows "unat (opacity (snd (run_fade opts (i, w) n)))
         = min (unat (opacity_tgt w)) (unat (opacity w) + unat (fade_in_step opts) * n)"
proof (cases "n = 0")
  case True
  then show ?thesis using assms by (simp add: run_fade_def Let_def word_less_nat_alt)
next
  case False
  have ne: "opacity w \<noteq> opacity_tgt w" using assms(2) by auto
  have "min (unat (opacity_tgt w)) (unat (opacity w) + unat (fade_in_step opts) * n) < 2 ^ 32"
    using unat_opacity_bound [of "opacity_tgt w"] by simp
  then show ?thesis
    using assms False ne
    by (simp add: run_fade_def Let_def clamp_in to_opacity_t_nat del: of_nat_unat)
qed

lemma run_fade_out:
  assumes "fade w" "opacity_tgt w < opacity w"
  shows "int (unat (opacity (snd (run_fade opts (i, w) n))))
         = max (int (unat (opacity_tgt w)))
               (int (unat (opacity w)) - int (unat (fade_out_step opts)) * int n)"
proof (cases "n = 0")
  case True
  then show ?thesis using assms by (simp add: run_fade_def Let_def word_less_def)
next
  case False
  let ?t = "unat (opacity_tgt w)" and ?a = "unat (opacity w)" and ?s = "unat (fade_out_step opts)"
  have ne: "opacity w \<noteq> opacity_tgt w" and nlt: "\<not> opacity w < opacity_tgt w"
    using assms(2) by auto
  have ta: "?t \<le> ?a" using assms(2) by (simp add: word_less_nat_alt)
  have am: "?a \<le> OPAQUE" using unat_opacity_bound [of "opacity w"] by (simp add: OPAQUE_def)
  let ?z = "max (int ?t) (int ?a - int ?s * int n)"
  have z0: "0 \<le> ?z" by (simp del: of_nat_unat)
  have p: "0 \<le> int ?s * int n" by (simp del: of_nat_unat)
  have b: "int ?a < 2 ^ 32" "int ?t < 2 ^ 32"
    using unat_opacity_bound [of "opacity w"] unat_opacity_bound [of "opacity_tgt w"]
    by (simp_all del: of_nat_unat)
  have z32: "?z < 2 ^ 32" using p b by linarith
  have "int (unat (to_opacity_t (real_of_int ?z))) = ?z"
    using z0 z32 by (rule to_opacity_t_int)
  then show ?thesis
    using assms(1) False ne nlt clamp_out [OF ta am, of ?s n]
    by (simp add: run_fade_def Let_def del: of_nat_unat of_nat_max)
qed

lemma run_fade_snd_idling:
  "snd (run_fade opts (i, w) n) = snd (run_fade opts (j, w) n)"
  by (simp add: run_fade_def Let_def)

lemma paint_preprocess_windows_snd:
  "snd (paint_preprocess_windows opct calc opts n i ws) =
     map (\<lambda>w. snd (run_fade opts
            (True, paint_preprocess_opct opct calc (paint_preprocess_restore w)) n)) ws"
proof (induction ws arbitrary: i)
  case Nil
  show ?case by simp
next
  case (Cons w ws)
  have "snd (run_fade opts (i, paint_preprocess_opct opct calc (paint_preprocess_restore w)) n)
      = snd (run_fade opts (True, paint_preprocess_opct opct calc (paint_preprocess_restore w)) n)"
    by (rule run_fade_snd_idling)
  with Cons show ?case by (simp add: case_prod_beta Let_def)
qed

lemma run_fade_keeps:
  "fade (snd (run_fade opts (i, w) n)) = fade w
   \<and> opacity_tgt (snd (run_fade opts (i, w) n)) = opacity_tgt w"
  by (simp add: run_fade_def Let_def)

lemma paint_preprocess_steps_cases:
  assumes d: "0 < fade_delta opts"
    and v: "v = real_of_int (now - ftime) / real_of_int (fade_delta opts) + tol"
  shows "paint_preprocess_steps tol opts now ftime =
     (if ftime \<noteq> 0 \<and> 0 \<le> v then \<lfloor>v\<rfloor> else 0,
      (if ftime = 0 \<or> v \<le> - 1 then now else ftime)
        + (if ftime \<noteq> 0 \<and> 0 \<le> v then \<lfloor>v\<rfloor> else 0) * fade_delta opts)"
proof -
  let ?d = "real_of_int (fade_delta opts)" and ?x = "real_of_int (now - ftime)"
  have dp: "0 < ?d" using d by simp
  have q: "(?x + tol * ?d) / ?d = v"
    using dp by (simp add: v add_divide_distrib)
  have df: "paint_preprocess_steps tol opts now ftime =
     (let steps = (if ftime \<noteq> 0 then c_trunc v else 0);
          reset = (ftime = 0 \<or> steps < 0);
          fade_time1 = (if reset then now else ftime);
          steps1 = (if reset then 0 else steps)
      in (steps1, fade_time1 + steps1 * fade_delta opts))"
    unfolding paint_preprocess_steps_def q ..
  show ?thesis
  proof (cases "ftime = 0")
    case True
    then show ?thesis by (simp add: paint_preprocess_steps_def Let_def)
  next
    case f: False
    consider (up) "0 \<le> v" | (mid) "- 1 < v" "v < 0" | (low) "v \<le> - 1" by linarith
    then show ?thesis
    proof cases
      case up
      then have c: "c_trunc v = \<lfloor>v\<rfloor>" and n: "0 \<le> \<lfloor>v\<rfloor>" by (simp_all add: c_trunc_def)
      have nl: "\<not> v \<le> - 1" using up by simp
      show ?thesis
        using f up c n nl by (simp add: df Let_def)
    next
      case mid
      have c: "c_trunc v = 0"
        using mid by (simp add: c_trunc_def ceiling_eq_iff)
      have nl: "\<not> v \<le> - 1" "\<not> 0 \<le> v" using mid by simp_all
      show ?thesis
        using f c nl by (simp add: df Let_def)
    next
      case low
      then have "\<lceil>v\<rceil> \<le> - 1" by (simp add: ceiling_le_iff)
      then have c: "c_trunc v < 0" using low by (simp add: c_trunc_def)
      have nl: "\<not> 0 \<le> v" using low by simp
      show ?thesis
        using f c nl low by (simp add: df Let_def)
    qed
  qed
qed

text \<open>
  Claim C2 (as amended). At a fade tick at time \<open>now\<close>, let \<open>v\<close> be
  \<open>(now - fade_time) / fade_delta + tol\<close>, where \<open>tol\<close> is \<open>FADE_DELTA_TOLERANCE\<close>. When
  \<open>fade_time\<close> is set and \<open>v\<close> is not negative the number of fade steps is \<open>floor v\<close> (the
  floor of the specification when the tolerance is 0 and \<open>fade_time\<close> is not after \<open>now\<close>);
  otherwise no step is taken. \<open>fade_time\<close> advances by exactly \<open>steps * fade_delta\<close>,
  from \<open>now\<close> when it was unset or \<open>v\<close> is \<open>-1\<close> or less (a time disorder). For every
  window, the fade flag is the one of the last paint when the window is unmapped, and the
  target is computed anew when \<open>WFLAG_OPCT_CHANGE\<close> is set; the opacity then moves towards
  the target by \<open>fade_in_step\<close> from below or \<open>fade_out_step\<close> from above, times the step
  count as \<open>run_fade\<close>'s \<open>unsigned\<close> parameter holds it, never crossing the target; a
  window that is not to fade is set to its target at once.
\<close>

theorem fade_tick_steps_and_opacity:
  assumes "0 < fade_delta opts"
    and "v = real_of_int (now - ftime) / real_of_int (fade_delta opts) + tol"
    and "steps = (if ftime \<noteq> 0 \<and> 0 \<le> v then \<lfloor>v\<rfloor> else 0)"
    and "base = (if ftime = 0 \<or> v \<le> - 1 then now else ftime)"
    and "n = nat (steps mod 2 ^ 32)"
    and "i < length ws"
    and "w = ws ! i"
    and "f = (if map_state w = IsUnmapped then fade_last w else fade w)"
    and "t = (if opct AND flags_c w \<noteq> 0 then calc (w\<lparr>fade := f\<rparr>) else opacity_tgt w)"
    and "r = paint_preprocess_fade tol opct calc opts now (ftime, idl, ws)"
    and "w1 = snd (snd r) ! i"
  shows "fst (paint_preprocess_steps tol opts now ftime) = steps
     \<and> (tol = 0 \<and> ftime \<noteq> 0 \<and> ftime \<le> now \<longrightarrow>
          steps = fade_steps_spec now ftime (fade_delta opts))
     \<and> (steps < 2 ^ 32 \<longrightarrow> n = nat steps)
     \<and> fst r = base + steps * fade_delta opts
     \<and> length (snd (snd r)) = length ws
     \<and> fade w1 = f \<and> opacity_tgt w1 = t
     \<and> (\<not> f \<longrightarrow> opacity w1 = t)
     \<and> (f \<and> opacity w < t \<longrightarrow>
          unat (opacity w1) = min (unat t) (unat (opacity w) + unat (fade_in_step opts) * n))
     \<and> (f \<and> t < opacity w \<longrightarrow>
          int (unat (opacity w1))
          = max (int (unat t)) (int (unat (opacity w)) - int (unat (fade_out_step opts)) * int n))
     \<and> (opacity w = t \<longrightarrow> opacity w1 = opacity w)"
proof -
  have st: "paint_preprocess_steps tol opts now ftime = (steps, base + steps * fade_delta opts)"
    using paint_preprocess_steps_cases [OF assms(1,2)] assms(3,4) by simp
  have s0: "0 \<le> steps" using assms(3) by simp
  have us: "to_unsigned steps = n" using assms(5) by (simp add: to_unsigned_def)
  let ?w0 = "paint_preprocess_opct opct calc (paint_preprocess_restore w)"
  have res: "paint_preprocess_restore w = w\<lparr>fade := f\<rparr>"
    using assms(8) by (simp add: paint_preprocess_restore_def)
  have w0: "fade ?w0 = f" "opacity_tgt ?w0 = t" "opacity ?w0 = opacity w"
    unfolding res using assms(9) by (simp_all add: paint_preprocess_opct_def)
  have ws': "snd (snd r) = map (\<lambda>w. snd (run_fade opts
            (True, paint_preprocess_opct opct calc (paint_preprocess_restore w)) n)) ws"
    using paint_preprocess_windows_snd [of opct calc opts n idl ws]
    by (simp add: assms(10) paint_preprocess_fade_def st us case_prod_beta Let_def)
  have nth: "w1 = snd (run_fade opts (True, ?w0) n)"
    using ws' assms(6,7,11) by simp
  have c1: "fst (paint_preprocess_steps tol opts now ftime) = steps" using st by simp
  have c2: "tol = 0 \<and> ftime \<noteq> 0 \<and> ftime \<le> now \<longrightarrow>
          steps = fade_steps_spec now ftime (fade_delta opts)"
  proof
    assume h: "tol = 0 \<and> ftime \<noteq> 0 \<and> ftime \<le> now"
    then have "0 \<le> real_of_int (now - ftime) / real_of_int (fade_delta opts)"
      using assms(1) by simp
    then show "steps = fade_steps_spec now ftime (fade_delta opts)"
      using h assms(2,3) by (simp add: fade_steps_spec_def)
  qed
  have c3: "steps < 2 ^ 32 \<longrightarrow> n = nat steps" using s0 assms(5) by simp
  have c4: "fst r = base + steps * fade_delta opts"
    by (simp add: assms(10) paint_preprocess_fade_def st case_prod_beta Let_def)
  have c5: "length (snd (snd r)) = length ws" using ws' by simp
  have c6: "fade w1 = f" and c7: "opacity_tgt w1 = t"
    unfolding nth using run_fade_keeps [of opts True ?w0 n] w0 by simp_all
  have c8: "\<not> f \<longrightarrow> opacity w1 = t"
    unfolding nth using run_fade_nofade [of ?w0 opts True n] w0 by simp
  have c9: "f \<and> opacity w < t \<longrightarrow>
          unat (opacity w1) = min (unat t) (unat (opacity w) + unat (fade_in_step opts) * n)"
    unfolding nth using run_fade_in [of ?w0 opts True n] w0 by simp
  have c10: "f \<and> t < opacity w \<longrightarrow>
          int (unat (opacity w1))
          = max (int (unat t)) (int (unat (opacity w)) - int (unat (fade_out_step opts)) * int n)"
    unfolding nth using run_fade_out [of ?w0 opts True n] w0 by simp
  have c11: "opacity w = t \<longrightarrow> opacity w1 = opacity w"
    unfolding nth using run_fade_reached [of ?w0 opts True n] w0 by auto
  from c1 c2 c3 c4 c5 c6 c7 c8 c9 c10 c11 show ?thesis by blast
qed


theorem fade_tick_witness:
  "fst (paint_preprocess_fade (1 / 5) 4 (\<lambda>w. 0) fade_example_opts 119
          (100, True, [fade_example_win, fade_example_unmapped])) = 120
   \<and> unat (opacity (snd (snd (paint_preprocess_fade (1 / 5) 4 (\<lambda>w. 0) fade_example_opts 119
          (100, True, [fade_example_win, fade_example_unmapped]))) ! 0)) = 7000
   \<and> unat (opacity (snd (snd (paint_preprocess_fade (1 / 5) 4 (\<lambda>w. 0) fade_example_opts 119
          (100, True, [fade_example_win, fade_example_unmapped]))) ! 1)) = 1000
   \<and> fst (paint_preprocess_steps (1 / 5) fade_example_opts 119 120) = 0
   \<and> snd (paint_preprocess_steps (1 / 5) fade_example_opts 119 120) = 120"
proof -
  let ?ws = "[fade_example_win, fade_example_unmapped]"
  let ?r = "paint_preprocess_fade (1 / 5) 4 (\<lambda>w. 0) fade_example_opts 119 (100, True, ?ws)"
  have d: "0 < fade_delta fade_example_opts" by (simp add: fade_example_opts_def)
  have v1: "real_of_int (119 - 100) / real_of_int (fade_delta fade_example_opts) + 1 / 5
            = 21 / 10"
    by (simp add: fade_example_opts_def)
  have v2: "real_of_int (119 - 120) / real_of_int (fade_delta fade_example_opts) + 1 / 5
            = 1 / 10"
    by (simp add: fade_example_opts_def)
  have fl: "\<lfloor>21 / 10 :: real\<rfloor> = 2" "\<lfloor>1 / 10 :: real\<rfloor> = 0" by simp_all
  note a = fade_tick_steps_and_opacity [where opts = fade_example_opts and now = 119
      and ftime = 100 and tol = "1 / 5" and i = 0 and ws = ?ws and opct = 4
      and calc = "\<lambda>w. 0" and idl = True, OF d refl refl refl refl _ refl refl refl refl refl]
  note b = fade_tick_steps_and_opacity [where opts = fade_example_opts and now = 119
      and ftime = 100 and tol = "1 / 5" and i = 1 and ws = ?ws and opct = 4
      and calc = "\<lambda>w. 0" and idl = True, OF d refl refl refl refl _ refl refl refl refl refl]
  note c = fade_tick_steps_and_opacity [where opts = fade_example_opts and now = 119
      and ftime = 120 and tol = "1 / 5" and i = 0 and ws = ?ws and opct = 4
      and calc = "\<lambda>w. 0" and idl = True, OF d refl refl refl refl _ refl refl refl refl refl]
  have c1: "fst ?r = 120"
    using a unfolding v1 fl by (simp add: fade_example_opts_def)
  have c2: "unat (opacity (snd (snd ?r) ! 0)) = 7000"
    using a unfolding v1 fl
    by (simp add: fade_example_opts_def fade_example_win_def word_less_nat_alt)
  have u3: "uint (opacity (snd (snd ?r) ! 1)) = 1000"
    using b unfolding v1 fl
    by (simp add: fade_example_opts_def fade_example_unmapped_def word_less_nat_alt)
  have "unat (opacity (snd (snd ?r) ! 1)) = nat (uint (opacity (snd (snd ?r) ! 1)))"
    by (rule unat_eq_nat_uint)
  then have c3: "unat (opacity (snd (snd ?r) ! 1)) = 1000"
    unfolding u3 by simp
  have c4: "fst (paint_preprocess_steps (1 / 5) fade_example_opts 119 120) = 0"
    using c unfolding v2 fl by simp
  have c5: "snd (paint_preprocess_steps (1 / 5) fade_example_opts 119 120) = 120"
    using paint_preprocess_steps_cases [where now = 119 and ftime = 120 and tol = "1 / 5",
        OF d refl]
    unfolding v2 fl by simp
  show ?thesis using c1 c2 c3 c4 c5 by blast
qed

text \<open>
  Claim C2 as stated fails when the clock has gone backwards: with \<open>fade_time = 100\<close>,
  \<open>now = 55\<close> and \<open>fade_delta = 10\<close> the specification's count is \<open>floor (-4.5) = -5\<close>,
  while \<open>paint_preprocess\<close> detects the time disorder, takes no step and sets
  \<open>fade_time\<close> to \<open>now\<close>. The tolerance is 0 here; any tolerance in \<open>[0, 1)\<close> gives the
  same result.
\<close>

theorem fade_steps_counterexample:
  "\<not> (fst (paint_preprocess_steps 0 fade_example_opts 55 100) = fade_steps_spec 55 100 10
      \<and> snd (paint_preprocess_steps 0 fade_example_opts 55 100)
          = 100 + fade_steps_spec 55 100 10 * 10)"
  by (simp add: paint_preprocess_steps_def fade_steps_spec_def fade_example_opts_def c_trunc_def Let_def)

lemma fade_steps_time_disorder:
  assumes "0 \<le> tol" "tol < 1"
  shows "paint_preprocess_steps tol fade_example_opts 55 100 = (0, 55)"
proof -
  have "(real_of_int (55 - 100) + tol * 10) / 10 < 0" using assms by simp
  moreover have "\<lceil>(real_of_int (55 - 100) + tol * 10) / 10\<rceil> < 0"
    using assms by (simp add: ceiling_less_iff)
  ultimately show ?thesis
    by (simp add: paint_preprocess_steps_def fade_example_opts_def c_trunc_def Let_def)
qed

subsection \<open>The paint decision\<close>











subsection \<open>Restacking\<close>

lemma find_slot_le: "find_slot P vs \<le> length vs"
  by (induction vs) auto

lemma find_slot_none: "(\<forall>v \<in> set vs. \<not> P v) \<Longrightarrow> find_slot P vs = length vs"
  by (induction vs) auto

lemma find_slot_found: "find_slot P vs < length vs \<Longrightarrow> P (vs ! find_slot P vs)"
  by (induction vs) (auto split: if_splits)

text \<open>
  Claim C7 (as amended). For a restack request \<open>restack_win(w, new_above)\<close> with
  \<open>new_above\<close> nonzero and no window of that id in the stack that is not destroyed, the
  stack order is left completely unchanged, and the failure is reported unless
  \<open>new_above\<close> is the id of the window directly after \<open>w\<close> (a destroyed one), when the call
  returns silently; and when \<open>new_above\<close> equals the id of the window directly after
  \<open>w\<close>, the call changes nothing.
\<close>

theorem restack_win_missing_above:
  assumes "i < length lst"
  shows "(new_above \<noteq> 0 \<and> (\<forall>v \<in> set lst. wid v = new_above \<longrightarrow> destroyed v) \<longrightarrow>
            fst (restack_win lst i new_above) = lst
            \<and> (snd (restack_win lst i new_above) \<longleftrightarrow> old_above lst i \<noteq> new_above))
     \<and> (new_above = old_above lst i \<longrightarrow> restack_win lst i new_above = (lst, False))"
proof -
  have "find_slot (\<lambda>v. wid v = new_above \<and> \<not> destroyed v) lst = length lst"
    if "\<forall>v \<in> set lst. wid v = new_above \<longrightarrow> destroyed v"
    using that by (intro find_slot_none) blast
  then show ?thesis by (auto simp: restack_win_def Let_def)
qed

theorem restack_win_witness:
  "restack_win [stack_example_win 1 False, stack_example_win 2 False, stack_example_win 3 True] 0 3
     = ([stack_example_win 1 False, stack_example_win 2 False, stack_example_win 3 True], True)
   \<and> restack_win [stack_example_win 1 False, stack_example_win 2 False, stack_example_win 3 True] 0 2
     = ([stack_example_win 1 False, stack_example_win 2 False, stack_example_win 3 True], False)"
proof -
  let ?l = "[stack_example_win 1 False, stack_example_win 2 False, stack_example_win 3 True]"
  have i: "0 < length ?l" by simp
  have a: "old_above ?l 0 = 2" by (simp add: old_above_def stack_example_win_def)
  have d: "\<forall>v \<in> set ?l. wid v = 3 \<longrightarrow> destroyed v" by (simp add: stack_example_win_def)
  show ?thesis
    using restack_win_missing_above [OF i, of 3] restack_win_missing_above [OF i, of 2] a d
    by (simp add: prod_eq_iff)
qed


text \<open>
  Claim C7 as stated fails where the only window of id \<open>new_above\<close> is a destroyed one
  directly after \<open>w\<close>: the ids compare equal, the body of \<open>restack_win\<close> is skipped, and
  nothing is reported.
\<close>

theorem restack_win_counterexample:
  "\<not> snd (restack_win [stack_example_win 1 False, stack_example_win 2 True] 0 2)
   \<and> (2::nat) \<noteq> 0
   \<and> list_all (\<lambda>v. wid v \<noteq> 2 \<or> destroyed v) [stack_example_win 1 False, stack_example_win 2 True]"
  by (simp add: restack_win_def old_above_def stack_example_win_def)


text \<open>Restacks that succeed: to just above another window, to the bottom, and down by one.\<close>

lemma restack_example_moves:
  "fst (restack_win [stack_example_win 1 False, stack_example_win 2 False, stack_example_win 3 False] 2 1)
    = [stack_example_win 3 False, stack_example_win 1 False, stack_example_win 2 False]
  \<and> fst (restack_win [stack_example_win 1 False, stack_example_win 2 False, stack_example_win 3 False] 0 0)
    = [stack_example_win 2 False, stack_example_win 3 False, stack_example_win 1 False]
  \<and> fst (restack_win [stack_example_win 1 False, stack_example_win 2 False, stack_example_win 3 False] 0 3)
    = [stack_example_win 2 False, stack_example_win 1 False, stack_example_win 3 False]"
  by (simp add: restack_win_def old_above_def relink_def stack_example_win_def Let_def)

subsection \<open>Leader resolution\<close>







text \<open>Two windows whose leaders form a cycle: three invocations, the result 21.\<close>

lemma win_get_leader_raw_cycle:
  "fst (win_get_leader_raw 20 (leader_example_session (leader_example_win 10 11 21 0)
      (leader_example_win 20 21 11 0)) 1 0) = 21
   \<and> win_get_leader_depth 20 (leader_example_session (leader_example_win 10 11 21 0)
      (leader_example_win 20 21 11 0)) 1 0 = 3"
  by (simp add: win_get_leader_raw.simps win_get_leader_depth.simps leader_example_session_def
      leader_example_win_def find_toplevel_def upd_win_def Let_def)

subsection \<open>Blur kernels\<close>











subsection \<open>Damage, painting and redirection\<close>

lemma add_damage_unredirected: "\<not> redirected ps \<Longrightarrow> add_damage ps d = ps"
  by (simp add: add_damage_def)

lemma add_damage_keeps:
  "redirected (add_damage ps d) = redirected ps
   \<and> tmout_unredir_enabled (add_damage ps d) = tmout_unredir_enabled ps
   \<and> tmout_unredir_hit (add_damage ps d) = tmout_unredir_hit ps"
  by (simp add: add_damage_def Let_def split: option.splits)

lemma foldl_add_damage_keeps:
  "redirected (foldl add_damage ps ds) = redirected ps
   \<and> tmout_unredir_enabled (foldl add_damage ps ds) = tmout_unredir_enabled ps
   \<and> tmout_unredir_hit (foldl add_damage ps ds) = tmout_unredir_hit ps"
  by (induction ds arbitrary: ps) (simp_all add: add_damage_keeps)

lemma session_run_paint_redirected:
  "fst (session_run_paint opts resize ps) \<Longrightarrow> redirected ps"
  by (auto simp: session_run_paint_def Let_def split: if_splits option.splits)

lemma session_run_paint_unredirected:
  "\<not> redirected ps \<Longrightarrow>
   \<not> fst (session_run_paint opts resize ps)
   \<and> all_damage (snd (session_run_paint opts resize ps)) = None"
  by (simp add: session_run_paint_def Let_def)

lemma session_run_paint_keeps:
  "redirected (snd (session_run_paint opts resize ps)) = redirected ps
   \<and> tmout_unredir_enabled (snd (session_run_paint opts resize ps)) = tmout_unredir_enabled ps
   \<and> \<not> tmout_unredir_hit (snd (session_run_paint opts resize ps))"
  by (simp add: session_run_paint_def Let_def)

lemma session_run_iteration_painted:
  "painted (fst (session_run_iteration opts resize inp ps))
   \<Longrightarrow> redirected_at_paint (fst (session_run_iteration opts resize inp ps))"
  by (simp add: session_run_iteration_def Let_def session_run_paint_redirected)

lemma session_run_loop_painted:
  "out \<in> set (session_run_loop opts resize inps ps) \<Longrightarrow> painted out
   \<Longrightarrow> redirected_at_paint out"
proof (induction inps arbitrary: ps)
  case Nil
  then show ?case by simp
next
  case (Cons inp inps)
  then show ?case
    using session_run_iteration_painted [of opts resize inp ps]
    by (auto simp: Let_def)
qed

lemma redir_start_redirected: "redirected (redir_start ps)"
  by (simp add: redir_start_def force_repaint_def add_damage_def Let_def split: option.splits)

lemma redir_start_keeps:
  "tmout_unredir_enabled (redir_start ps) = tmout_unredir_enabled ps
   \<and> tmout_unredir_hit (redir_start ps) = tmout_unredir_hit ps"
  by (simp add: redir_start_def force_repaint_def add_damage_def Let_def split: option.splits)

lemma unredir_scan_highest:
  "fst (unredir_scan opts (h, u) ws)
   \<longleftrightarrow> h \<and> (\<not> unredir_if_possible opts \<or> filter to_paint ws = [])"
  by (induction ws arbitrary: h u) (auto simp: Let_def)

lemma unredir_scan_possible:
  "snd (unredir_scan opts (True, False) ws) \<longleftrightarrow>
     unredir_if_possible opts \<and>
     (case filter to_paint ws of [] \<Rightarrow> False
      | w # _ \<Rightarrow> win_is_solid w \<and> (frame_opacity w = 0 \<or> \<not> win_has_frame w)
          \<and> win_is_fullscreen w \<and> \<not> unredir_if_possible_excluded w)"
proof -
  have settled: "snd (unredir_scan opts (False, u) ws) = u" for u ws
    by (induction ws) (simp_all add: Let_def)
  show ?thesis
    by (induction ws) (auto simp: Let_def settled)
qed

text \<open>
  Claim C6. In every iteration of the main loop in which the screen is not redirected
  when the paint is decided, no paint is emitted: the accumulated damage is discarded
  before the decision, and damage added while the screen is unredirected is dropped by
  \<open>add_damage\<close>, not accumulated; so in every run of the loop \<open>paint_all\<close> is never called
  while the screen is unredirected.
\<close>

theorem no_paint_while_unredirected:
  "(\<not> redirected ps \<longrightarrow> add_damage ps d = ps)
   \<and> (\<not> redirected ps \<longrightarrow>
        \<not> fst (session_run_paint opts resize ps)
        \<and> all_damage (snd (session_run_paint opts resize ps)) = None)
   \<and> (\<forall>out \<in> set (session_run_loop opts resize inps ps).
        painted out \<longrightarrow> redirected_at_paint out)"
  using add_damage_unredirected session_run_paint_unredirected session_run_loop_painted
  by blast

lemma paint_example_outs:
  "session_run_loop (redir_example_opts\<lparr>unredir_if_possible_delay := 0\<rparr>) (\<lambda>n r. r)
     paint_example_run (redir_example_session True)
   = [\<lparr>fired = False, decision = True, was_redirected = True, stopped = True,
        redirected_at_paint = False, painted = False\<rparr>,
      \<lparr>fired = False, decision = False, was_redirected = False, stopped = False,
        redirected_at_paint = True, painted = True\<rparr>]"
  by (simp add: paint_example_run_def redir_example_opts_def redir_example_session_def
      redir_example_win_def session_run_iteration_def session_run_paint_def
      paint_preprocess_redir_def unredir_decision_def timeout_run_def
      redir_stop_def redir_start_def force_repaint_def add_damage_def Let_def)

theorem no_paint_witness:
  "add_damage (redir_example_session False) (Some [\<lparr>x1 = 0, y1 = 0, x2 = 10, y2 = 10\<rparr>])
     = redir_example_session False
   \<and> \<not> fst (session_run_paint redir_example_opts (\<lambda>n r. r)
        ((redir_example_session False)\<lparr>all_damage := Some [\<lparr>x1 = 0, y1 = 0, x2 = 10, y2 = 10\<rparr>]\<rparr>))
   \<and> map painted (session_run_loop (redir_example_opts\<lparr>unredir_if_possible_delay := 0\<rparr>)
        (\<lambda>n r. r) paint_example_run (redir_example_session True)) = [False, True]
   \<and> map redirected_at_paint (session_run_loop (redir_example_opts\<lparr>unredir_if_possible_delay := 0\<rparr>)
        (\<lambda>n r. r) paint_example_run (redir_example_session True)) = [False, True]"
proof -
  have u: "\<not> redirected (redir_example_session False)"
    "\<not> redirected ((redir_example_session False)\<lparr>all_damage := Some [\<lparr>x1 = 0, y1 = 0, x2 = 10, y2 = 10\<rparr>]\<rparr>)"
    by (simp_all add: redir_example_session_def)
  show ?thesis
    using no_paint_while_unredirected [of "redir_example_session False"
        "Some [\<lparr>x1 = 0, y1 = 0, x2 = 10, y2 = 10\<rparr>]" redir_example_opts "\<lambda>n r. r" "[]"]
      no_paint_while_unredirected [of
        "(redir_example_session False)\<lparr>all_damage := Some [\<lparr>x1 = 0, y1 = 0, x2 = 10, y2 = 10\<rparr>]\<rparr>"
        None redir_example_opts "\<lambda>n r. r" "[]"] u
    by (simp add: paint_example_outs)
qed

subsection \<open>The unredirect timeout\<close>

lemma unredir_decision_windows:
  assumes "redirected_force opts = UNSET"
  shows "unredir_decision opts ws ps \<longleftrightarrow>
     unredir_if_possible opts \<and>
     (case filter to_paint ws of
        [] \<Rightarrow> \<not> redirected ps
      | w # _ \<Rightarrow> win_is_solid w \<and> (frame_opacity w = 0 \<or> \<not> win_has_frame w)
          \<and> win_is_fullscreen w \<and> \<not> unredir_if_possible_excluded w)"
  using assms
  by (auto simp: unredir_decision_def Let_def unredir_scan_highest unredir_scan_possible
      split: list.splits)

lemma paint_preprocess_redir_arm:
  assumes "unredir_decision opts ws ps" "redirected ps"
    "unredir_if_possible_delay opts \<noteq> 0" "\<not> tmout_unredir_hit ps"
  shows "redirected (paint_preprocess_redir opts now ws ps)
     \<and> tmout_unredir_enabled (paint_preprocess_redir opts now ws ps)
     \<and> (if tmout_unredir_enabled ps then paint_preprocess_redir opts now ws ps = ps
         else tmout_unredir_firstrun (paint_preprocess_redir opts now ws ps) = now)"
  using assms by (simp add: paint_preprocess_redir_def timeout_reset_def)

lemma paint_preprocess_redir_stop:
  assumes "unredir_if_possible_delay opts \<noteq> 0"
  shows "redirected ps \<and> \<not> redirected (paint_preprocess_redir opts now ws ps)
     \<longleftrightarrow> unredir_decision opts ws ps \<and> redirected ps \<and> tmout_unredir_hit ps"
  using assms redir_start_redirected [of "ps\<lparr>tmout_unredir_enabled := False\<rparr>"]
  by (auto simp: paint_preprocess_redir_def timeout_reset_def redir_stop_def)

lemma paint_preprocess_redir_negative:
  assumes "\<not> unredir_decision opts ws ps"
  shows "\<not> tmout_unredir_enabled (paint_preprocess_redir opts now ws ps)
     \<and> redirected (paint_preprocess_redir opts now ws ps)"
  using assms redir_start_redirected [of "ps\<lparr>tmout_unredir_enabled := False\<rparr>"]
    redir_start_keeps [of "ps\<lparr>tmout_unredir_enabled := False\<rparr>"]
  by (simp add: paint_preprocess_redir_def)

lemma paint_preprocess_redir_enabled:
  assumes "tmout_unredir_enabled (paint_preprocess_redir opts now ws ps)"
    "tmout_unredir_enabled ps \<longrightarrow> redirected ps \<and> \<not> tmout_unredir_hit ps"
    "unredir_if_possible_delay opts \<noteq> 0"
  shows "unredir_decision opts ws ps \<and> redirected (paint_preprocess_redir opts now ws ps)"
  using assms paint_preprocess_redir_negative [of opts ws ps now]
  by (auto simp: paint_preprocess_redir_def timeout_reset_def redir_stop_def split: if_splits)

lemma timeout_run_facts:
  "redirected (timeout_run due now ps) = redirected ps
   \<and> (tmout_unredir_hit (timeout_run due now ps)
        \<longleftrightarrow> tmout_unredir_hit ps \<or> (tmout_unredir_enabled ps \<and> due))
   \<and> (tmout_unredir_enabled (timeout_run due now ps) \<longleftrightarrow> tmout_unredir_enabled ps \<and> \<not> due)"
  by (simp add: timeout_run_def timeout_invoke_def tmout_unredir_callback_def)

lemma unredir_decision_idling [simp]:
  "unredir_decision opts ws (ps\<lparr>idling := b\<rparr>) = unredir_decision opts ws ps"
  by (simp add: unredir_decision_def)

lemma session_run_iteration_timer:
  assumes inv: "tmout_unredir_idle ps" and delay: "unredir_if_possible_delay opts \<noteq> 0"
  shows "tmout_unredir_idle (snd (session_run_iteration opts resize inp ps))
     \<and> (stopped (fst (session_run_iteration opts resize inp ps)) \<longrightarrow>
          fired (fst (session_run_iteration opts resize inp ps))
          \<and> decision (fst (session_run_iteration opts resize inp ps)))
     \<and> (tmout_unredir_enabled (snd (session_run_iteration opts resize inp ps)) \<longrightarrow>
          decision (fst (session_run_iteration opts resize inp ps))
          \<and> redirected_at_paint (fst (session_run_iteration opts resize inp ps)))
     \<and> (fired (fst (session_run_iteration opts resize inp ps)) \<longrightarrow> tmout_unredir_enabled ps)"
proof -
  let ?ps1 = "timeout_run (tmout_due inp) (time_ms inp) ps"
  let ?ps2 = "foldl add_damage ?ps1 (damages inp)"
  let ?ps2i = "?ps2\<lparr>idling := True\<rparr>"
  let ?ps3 = "paint_preprocess_redir opts (time_ms inp) (seen inp) ?ps2i"
  let ?r = "session_run_paint opts resize ?ps3"
  have it: "session_run_iteration opts resize inp ps =
      (\<lparr>fired = (tmout_unredir_enabled ps \<and> tmout_due inp),
        decision = unredir_decision opts (seen inp) ?ps2,
        was_redirected = redirected ?ps2,
        stopped = (redirected ?ps2 \<and> \<not> redirected ?ps3),
        redirected_at_paint = redirected ?ps3,
        painted = fst ?r\<rparr>, snd ?r)"
    by (simp add: session_run_iteration_def Let_def)
  have nh: "\<not> tmout_unredir_hit ps" and er: "tmout_unredir_enabled ps \<longrightarrow> redirected ps"
    using inv by (auto simp: tmout_unredir_idle_def split: if_splits)
  have r2: "redirected ?ps2i = redirected ps"
    and h2: "tmout_unredir_hit ?ps2i \<longleftrightarrow> tmout_unredir_enabled ps \<and> tmout_due inp"
    and e2: "tmout_unredir_enabled ?ps2i \<longleftrightarrow> tmout_unredir_enabled ps \<and> \<not> tmout_due inp"
    using nh by (simp_all add: foldl_add_damage_keeps timeout_run_facts)
  have stop: "redirected ?ps2i \<and> \<not> redirected ?ps3
      \<longleftrightarrow> unredir_decision opts (seen inp) ?ps2i \<and> redirected ?ps2i \<and> tmout_unredir_hit ?ps2i"
    using paint_preprocess_redir_stop [OF delay] .
  have en: "tmout_unredir_enabled ?ps3 \<longrightarrow>
      unredir_decision opts (seen inp) ?ps2i \<and> redirected ?ps3"
    using paint_preprocess_redir_enabled [of opts "time_ms inp" "seen inp" ?ps2i] e2 h2 r2 er delay
    by blast
  have keep: "redirected (snd ?r) = redirected ?ps3"
    "tmout_unredir_enabled (snd ?r) = tmout_unredir_enabled ?ps3"
    "\<not> tmout_unredir_hit (snd ?r)"
    using session_run_paint_keeps [of opts resize ?ps3] by simp_all
  have a: "tmout_unredir_idle (snd ?r)"
    using keep en by (simp add: tmout_unredir_idle_def)
  have d2: "unredir_decision opts (seen inp) ?ps2i = unredir_decision opts (seen inp) ?ps2"
    by simp
  have rr: "redirected ?ps2i = redirected ?ps2" by simp
  have b: "redirected ?ps2 \<and> \<not> redirected ?ps3 \<longrightarrow>
      (tmout_unredir_enabled ps \<and> tmout_due inp) \<and> unredir_decision opts (seen inp) ?ps2"
    using stop h2 d2 rr by blast
  have c: "tmout_unredir_enabled (snd ?r) \<longrightarrow>
      unredir_decision opts (seen inp) ?ps2 \<and> redirected ?ps3"
    using en keep(2) d2 by blast
  have f: "fired (fst (session_run_iteration opts resize inp ps))
        \<longleftrightarrow> tmout_unredir_enabled ps \<and> tmout_due inp"
    "decision (fst (session_run_iteration opts resize inp ps))
        \<longleftrightarrow> unredir_decision opts (seen inp) ?ps2"
    "stopped (fst (session_run_iteration opts resize inp ps))
        \<longleftrightarrow> redirected ?ps2 \<and> \<not> redirected ?ps3"
    "redirected_at_paint (fst (session_run_iteration opts resize inp ps))
        \<longleftrightarrow> redirected ?ps3"
    "snd (session_run_iteration opts resize inp ps) = snd ?r"
    by (simp_all add: it)
  show ?thesis unfolding f using a b c by blast
qed

lemma session_run_loop_stop:
  assumes "tmout_unredir_idle ps" "unredir_if_possible_delay opts \<noteq> 0"
    "k < length (session_run_loop opts resize inps ps)"
    "stopped (session_run_loop opts resize inps ps ! k)"
  shows "fired (session_run_loop opts resize inps ps ! k)
     \<and> decision (session_run_loop opts resize inps ps ! k)
     \<and> (if k = 0 then tmout_unredir_enabled ps
         else decision (session_run_loop opts resize inps ps ! (k - 1))
              \<and> redirected_at_paint (session_run_loop opts resize inps ps ! (k - 1)))"
  using assms
proof (induction inps arbitrary: ps k)
  case Nil
  then show ?case by simp
next
  case (Cons inp inps)
  let ?r = "session_run_iteration opts resize inp ps"
  have loop: "session_run_loop opts resize (inp # inps) ps
              = fst ?r # session_run_loop opts resize inps (snd ?r)"
    by (simp add: Let_def)
  note t = session_run_iteration_timer [OF Cons.prems(1,2), of resize inp]
  show ?case
  proof (cases k)
    case 0
    then show ?thesis using Cons.prems(4) t unfolding loop by simp
  next
    case (Suc j)
    have j: "j < length (session_run_loop opts resize inps (snd ?r))"
      "stopped (session_run_loop opts resize inps (snd ?r) ! j)"
      using Cons.prems(3,4) Suc unfolding loop by simp_all
    have ih: "fired (session_run_loop opts resize inps (snd ?r) ! j)
       \<and> decision (session_run_loop opts resize inps (snd ?r) ! j)
       \<and> (if j = 0 then tmout_unredir_enabled (snd ?r)
           else decision (session_run_loop opts resize inps (snd ?r) ! (j - 1))
                \<and> redirected_at_paint (session_run_loop opts resize inps (snd ?r) ! (j - 1)))"
      using Cons.IH [OF _ Cons.prems(2) j] t by blast
    show ?thesis
    proof (cases j)
      case 0
      then show ?thesis using ih t Suc unfolding loop by simp
    next
      case (Suc i)
      then show ?thesis using ih \<open>k = Suc j\<close> unfolding loop by simp
    qed
  qed
qed

text \<open>
  Claim C4 (as amended). The decision of \<open>paint_preprocess\<close> that the screen can be
  unredirected is, with no forced redirection state: \<open>unredir_if_possible\<close> is set, and the
  topmost painted window is solid with no translucent frame, fullscreen and not
  rule-excluded, or no window is painted and the screen is already unredirected. With
  \<open>unredir_if_possible_delay\<close> nonzero: when the decision is positive while the screen is
  redirected and the timeout has not hit, the timeout is started (or left running if
  it is armed) and the screen stays redirected; \<open>paint_preprocess\<close> unredirects the screen
  exactly when the decision is positive, the screen is redirected and the timeout has
  hit; in a run of the main loop that happens only in an iteration in which the
  timeout fired, after an earlier pass whose decision was positive too. Whenever the
  decision is negative the timeout is disabled and the screen stays or becomes
  redirected.
\<close>

theorem unredir_timer_protocol:
  assumes "unredir_if_possible_delay opts \<noteq> 0"
    and "ps' = paint_preprocess_redir opts now ws ps"
    and "tmout_unredir_idle ps0"
    and "outs = session_run_loop opts resize inps ps0"
    and "k < length outs"
  shows "(redirected_force opts = UNSET \<longrightarrow>
            (unredir_decision opts ws ps \<longleftrightarrow>
               unredir_if_possible opts \<and>
               (case filter to_paint ws of
                  [] \<Rightarrow> \<not> redirected ps
                | w # _ \<Rightarrow> win_is_solid w \<and> (frame_opacity w = 0 \<or> \<not> win_has_frame w)
                    \<and> win_is_fullscreen w \<and> \<not> unredir_if_possible_excluded w)))
     \<and> (unredir_decision opts ws ps \<and> redirected ps \<and> \<not> tmout_unredir_hit ps \<longrightarrow>
            redirected ps' \<and> tmout_unredir_enabled ps'
            \<and> (if tmout_unredir_enabled ps then ps' = ps else tmout_unredir_firstrun ps' = now))
     \<and> (redirected ps \<and> \<not> redirected ps' \<longleftrightarrow>
            unredir_decision opts ws ps \<and> redirected ps \<and> tmout_unredir_hit ps)
     \<and> (\<not> unredir_decision opts ws ps \<longrightarrow> \<not> tmout_unredir_enabled ps' \<and> redirected ps')
     \<and> (stopped (outs ! k) \<longrightarrow>
            fired (outs ! k) \<and> decision (outs ! k)
            \<and> (if k = 0 then tmout_unredir_enabled ps0
                else decision (outs ! (k - 1)) \<and> redirected_at_paint (outs ! (k - 1))))"
proof -
  have a: "redirected_force opts = UNSET \<longrightarrow>
            (unredir_decision opts ws ps \<longleftrightarrow>
               unredir_if_possible opts \<and>
               (case filter to_paint ws of
                  [] \<Rightarrow> \<not> redirected ps
                | w # _ \<Rightarrow> win_is_solid w \<and> (frame_opacity w = 0 \<or> \<not> win_has_frame w)
                    \<and> win_is_fullscreen w \<and> \<not> unredir_if_possible_excluded w))"
    using unredir_decision_windows by blast
  have b: "unredir_decision opts ws ps \<and> redirected ps \<and> \<not> tmout_unredir_hit ps \<longrightarrow>
            redirected ps' \<and> tmout_unredir_enabled ps'
            \<and> (if tmout_unredir_enabled ps then ps' = ps else tmout_unredir_firstrun ps' = now)"
    unfolding assms(2) using paint_preprocess_redir_arm [OF _ _ assms(1)] by blast
  have c: "redirected ps \<and> \<not> redirected ps' \<longleftrightarrow>
            unredir_decision opts ws ps \<and> redirected ps \<and> tmout_unredir_hit ps"
    unfolding assms(2) using paint_preprocess_redir_stop [OF assms(1)] .
  have d: "\<not> unredir_decision opts ws ps \<longrightarrow> \<not> tmout_unredir_enabled ps' \<and> redirected ps'"
    unfolding assms(2) using paint_preprocess_redir_negative by blast
  have e: "stopped (outs ! k) \<longrightarrow>
            fired (outs ! k) \<and> decision (outs ! k)
            \<and> (if k = 0 then tmout_unredir_enabled ps0
                else decision (outs ! (k - 1)) \<and> redirected_at_paint (outs ! (k - 1)))"
    using session_run_loop_stop [OF assms(3) assms(1), of k resize inps] assms(5)
    unfolding assms(4) by blast
  from a b c d e show ?thesis by blast
qed

lemma redir_example_outs:
  "session_run_loop redir_example_opts (\<lambda>n r. r) redir_example_run (redir_example_session True)
   = [\<lparr>fired = False, decision = True, was_redirected = True, stopped = False,
        redirected_at_paint = True, painted = False\<rparr>,
      \<lparr>fired = True, decision = True, was_redirected = True, stopped = True,
        redirected_at_paint = False, painted = False\<rparr>]"
  by (simp add: redir_example_run_def redir_example_opts_def redir_example_session_def
      redir_example_win_def session_run_iteration_def session_run_paint_def
      paint_preprocess_redir_def unredir_decision_def timeout_run_def timeout_invoke_def
      tmout_unredir_callback_def timeout_reset_def redir_stop_def redir_start_def Let_def)

theorem unredir_timer_witness:
  "tmout_unredir_enabled (paint_preprocess_redir redir_example_opts 0 [redir_example_win True]
       (redir_example_session True))
   \<and> redirected (paint_preprocess_redir redir_example_opts 0 [redir_example_win True]
       (redir_example_session True))
   \<and> map stopped (session_run_loop redir_example_opts (\<lambda>n r. r) redir_example_run
       (redir_example_session True)) = [False, True]
   \<and> fired (session_run_loop redir_example_opts (\<lambda>n r. r) redir_example_run
       (redir_example_session True) ! 1)"
proof -
  have d: "unredir_if_possible_delay redir_example_opts \<noteq> 0"
    by (simp add: redir_example_opts_def)
  have i: "tmout_unredir_idle (redir_example_session True)"
    by (simp add: tmout_unredir_idle_def redir_example_session_def)
  have k: "1 < length (session_run_loop redir_example_opts (\<lambda>n r. r) redir_example_run
       (redir_example_session True))"
    by (simp add: redir_example_outs)
  have dec: "unredir_decision redir_example_opts [redir_example_win True]
       (redir_example_session True)"
    by (simp add: unredir_decision_def redir_example_opts_def redir_example_win_def
        redir_example_session_def Let_def)
  have st: "redirected (redir_example_session True)"
    "\<not> tmout_unredir_hit (redir_example_session True)"
    "\<not> tmout_unredir_enabled (redir_example_session True)"
    by (simp_all add: redir_example_session_def)
  show ?thesis
    using unredir_timer_protocol [where now = 0 and ws = "[redir_example_win True]"
        and ps = "redir_example_session True", OF d refl i refl k] dec st
    by (simp add: redir_example_outs)
qed


text \<open>
  Claim C4 as stated fails when no window is painted and the screen is unredirected:
  the condition on the topmost painted window is false, and yet \<open>paint_preprocess\<close> leaves
  the screen unredirected (it does not redirect a screen with nothing to paint).
\<close>

theorem unredir_cond_counterexample:
  "\<not> unredir_cond_spec []
   \<and> \<not> redirected (paint_preprocess_redir redir_example_opts 0 [] (redir_example_session False))"
  by (simp add: unredir_cond_spec_def paint_preprocess_redir_def unredir_decision_def
      redir_example_opts_def redir_example_session_def Let_def)

subsection \<open>The window registry\<close>

lemma upd_win_simps [simp]:
  "window_stack (upd_win ps a f) = window_stack ps"
  "windows (upd_win ps a f) = windows ps"
  "redirected (upd_win ps a f) = redirected ps"
  "active_win (upd_win ps a f) = active_win ps"
  "wins (upd_win ps a f) a = f (wins ps a)"
  "b \<noteq> a \<Longrightarrow> wins (upd_win ps a f) b = wins ps b"
  by (simp_all add: upd_win_def)

lemma wid_upd_win:
  "wid (f (wins ps a)) = wid (wins ps a) \<Longrightarrow> wid (wins (upd_win ps a f) b) = wid (wins ps b)"
  by (cases "b = a") simp_all

lemma registry_inv_touches:
  "registry_inv ps \<Longrightarrow> touches ps ps1 \<Longrightarrow> registry_inv ps1"
  unfolding registry_inv_def touches_def by simp

lemma registry_inv_but_touches:
  "registry_inv_but a ps \<Longrightarrow> touches ps ps1 \<Longrightarrow> registry_inv_but a ps1"
  unfolding registry_inv_but_def touches_def by simp

lemma touches_upd_win:
  assumes "wid (f (wins ps a)) = wid (wins ps a)"
    "state (f (wins ps a)) = WSTATE_DESTROYING \<longleftrightarrow> state (wins ps a) = WSTATE_DESTROYING"
  shows "touches ps (upd_win ps a f)"
proof -
  have "wid (wins (upd_win ps a f) b) = wid (wins ps b)
      \<and> (state (wins (upd_win ps a f) b) = WSTATE_DESTROYING
           \<longleftrightarrow> state (wins ps b) = WSTATE_DESTROYING)" for b
    using assms by (cases "b = a") simp_all
  then show ?thesis by (simp add: touches_def)
qed

lemma registry_inv_but_upd:
  assumes "registry_inv_but a ps" "wid (f (wins ps a)) = wid (wins ps a)"
  shows "registry_inv_but a (upd_win ps a f)"
proof -
  have w: "wid (wins (upd_win ps a f) b) = wid (wins ps b)" for b
    using assms(2) by (rule wid_upd_win)
  show ?thesis using assms(1) unfolding registry_inv_but_def by (simp add: w)
qed

lemma registry_inv_but_settled:
  assumes "registry_inv_but a ps"
    "a \<in> set (window_stack ps) \<longrightarrow> state (wins ps a) = WSTATE_DESTROYING"
  shows "registry_inv ps"
proof -
  have "b \<in> set (windows ps) \<longleftrightarrow>
        b \<in> set (window_stack ps) \<and> state (wins ps b) \<noteq> WSTATE_DESTROYING" for b
    using assms unfolding registry_inv_but_def by (cases "b = a") blast+
  then show ?thesis using assms(1) unfolding registry_inv_but_def registry_inv_def by blast
qed

lemma registry_inv_destroying:
  assumes "registry_inv ps" "state (wins ps a) = WSTATE_DESTROYING"
  shows "registry_inv_but a ps"
  using assms unfolding registry_inv_but_def registry_inv_def by blast

lemma registry_inv_hash_del:
  assumes "registry_inv ps"
  shows "registry_inv_but a (ps\<lparr>windows := remove1 a (windows ps)\<rparr>)"
proof -
  have d: "distinct (windows ps)" using assms by (simp add: registry_inv_def)
  have s: "set (remove1 a (windows ps)) = set (windows ps) - {a}"
    using d by (rule set_remove1_eq)
  show ?thesis
    using assms d unfolding registry_inv_but_def registry_inv_def
    by (simp add: s)
qed

lemma finish_destroy_win_lists:
  "window_stack (finish_destroy_win ps a) = remove1 a (window_stack ps)"
  "windows (finish_destroy_win ps a) = windows ps"
  by (simp_all add: finish_destroy_win_def finish_unmap_win_def Let_def split: option.splits)

lemma finish_destroy_win_other:
  assumes "b \<noteq> a"
  shows "wid (wins (finish_destroy_win ps a) b) = wid (wins ps b)
     \<and> state (wins (finish_destroy_win ps a) b) = state (wins ps b)"
proof -
  let ?ps1 = "if state (wins ps a) \<noteq> WSTATE_UNMAPPED then finish_unmap_win ps a else ps"
  have 1: "wid (wins ?ps1 b) = wid (wins ps b) \<and> state (wins ?ps1 b) = state (wins ps b)"
    using assms by (simp add: finish_unmap_win_def)
  let ?ps2 = "case stack_next ?ps1 a of
                Some n \<Rightarrow> upd_win ?ps1 n (\<lambda>w. w\<lparr>reg_ignore_valid := False\<rparr>)
              | None \<Rightarrow> ?ps1"
  have 2: "wid (wins ?ps2 b) = wid (wins ?ps1 b) \<and> state (wins ?ps2 b) = state (wins ?ps1 b)"
  proof (cases "stack_next ?ps1 a")
    case None
    then show ?thesis by simp
  next
    case (Some n)
    then show ?thesis by (cases "b = n") simp_all
  qed
  have 3: "wins (finish_destroy_win ps a) = wins ?ps2"
    by (simp add: finish_destroy_win_def Let_def)
  show ?thesis unfolding 3 using 1 2 by simp
qed

lemma registry_inv_finish_destroy:
  assumes "registry_inv_but a ps"
  shows "registry_inv (finish_destroy_win ps a)"
proof -
  let ?q = "finish_destroy_win ps a"
  have d: "distinct (window_stack ps)" "distinct (windows ps)" and na: "a \<notin> set (windows ps)"
    using assms by (simp_all add: registry_inv_but_def)
  have st: "set (window_stack ?q) = set (window_stack ps) - {a}"
    using d(1) by (simp add: finish_destroy_win_lists)
  have mem: "b \<in> set (windows ?q) \<longleftrightarrow>
        b \<in> set (window_stack ?q) \<and> state (wins ?q b) \<noteq> WSTATE_DESTROYING" for b
  proof (cases "b = a")
    case True
    then show ?thesis using na st by (simp add: finish_destroy_win_lists)
  next
    case False
    then show ?thesis
      using assms finish_destroy_win_other [OF False, of ps] st
      unfolding registry_inv_but_def by (simp add: finish_destroy_win_lists(2))
  qed
  have ids: "wid (wins ?q b) = wid (wins ps b)" if "b \<in> set (windows ps)" for b
    using that na finish_destroy_win_other [of b a ps] by auto
  have c1: "distinct (window_stack ?q)" using d(1) by (simp add: finish_destroy_win_lists)
  have c2: "distinct (windows ?q)" using d(2) by (simp add: finish_destroy_win_lists)
  have c4: "\<forall>b \<in> set (windows ?q). wid (wins ?q b) \<noteq> 0"
    using assms ids unfolding registry_inv_but_def by (simp add: finish_destroy_win_lists(2))
  have c5: "\<forall>b \<in> set (windows ?q). \<forall>c \<in> set (windows ?q).
      wid (wins ?q b) = wid (wins ?q c) \<longrightarrow> b = c"
    using assms ids unfolding registry_inv_but_def by (simp add: finish_destroy_win_lists(2))
  show ?thesis unfolding registry_inv_def using c1 c2 mem c4 c5 by blast
qed

lemma registry_inv_check_fade:
  assumes inv: "registry_inv ps" and res: "win_check_fade_finished ps a = Some ps1"
  shows "registry_inv ps1"
proof (cases "state (wins ps a) = WSTATE_MAPPED \<or> state (wins ps a) = WSTATE_UNMAPPED")
  case True
  then have "ps1 = ps"
    using res by (simp add: win_check_fade_finished_def Let_def split: if_splits)
  then show ?thesis using inv by simp
next
  case quiet: False
  show ?thesis
  proof (cases "opacity (wins ps a) = opacity_tgt (wins ps a)")
    case False
    then have "ps1 = ps"
      using res quiet by (simp add: win_check_fade_finished_def Let_def)
    then show ?thesis using inv by simp
  next
    case eq: True
    show ?thesis
    proof (cases "state (wins ps a)")
      case WSTATE_DESTROYING
      have e: "ps1 = finish_destroy_win ps a"
        using res eq WSTATE_DESTROYING by (simp add: win_check_fade_finished_def Let_def)
      show ?thesis unfolding e
        using registry_inv_finish_destroy [OF registry_inv_destroying [OF inv WSTATE_DESTROYING]] .
    next
      case WSTATE_UNMAPPING
      have e: "ps1 = finish_unmap_win ps a"
        using res eq WSTATE_UNMAPPING by (simp add: win_check_fade_finished_def Let_def)
      show ?thesis unfolding e finish_unmap_win_def
        using WSTATE_UNMAPPING by (intro registry_inv_touches [OF inv] touches_upd_win) simp_all
    next
      case WSTATE_MAPPING
      have e: "ps1 = finish_map_win ps a"
        using res eq WSTATE_MAPPING by (simp add: win_check_fade_finished_def Let_def)
      show ?thesis unfolding e finish_map_win_def
        using WSTATE_MAPPING by (intro registry_inv_touches [OF inv] touches_upd_win) simp_all
    next
      case WSTATE_FADING
      have e: "ps1 = upd_win ps a (\<lambda>v. v\<lparr>state := WSTATE_MAPPED\<rparr>)"
        using res eq WSTATE_FADING by (simp add: win_check_fade_finished_def Let_def)
      show ?thesis unfolding e
        using WSTATE_FADING by (intro registry_inv_touches [OF inv] touches_upd_win) simp_all
    next
      case WSTATE_MAPPED
      then show ?thesis using quiet by simp
    next
      case WSTATE_UNMAPPED
      then show ?thesis using quiet by simp
    qed
  qed
qed

lemma registry_inv_skip_fading:
  assumes inv: "registry_inv ps" and res: "win_skip_fading ps a = Some ps1"
  shows "registry_inv ps1"
proof (cases "state (wins ps a) = WSTATE_MAPPED \<or> state (wins ps a) = WSTATE_UNMAPPED")
  case True
  then have "ps1 = ps"
    using res by (simp add: win_skip_fading_def Let_def split: if_splits)
  then show ?thesis using inv by simp
next
  case False
  let ?q = "upd_win ps a (\<lambda>v. v\<lparr>opacity := opacity_tgt v\<rparr>)"
  have i: "registry_inv ?q"
    by (intro registry_inv_touches [OF inv] touches_upd_win) simp_all
  have r: "win_check_fade_finished ?q a = Some ps1"
    using res False by (simp add: win_skip_fading_def Let_def)
  show ?thesis using registry_inv_check_fade [OF i r] .
qed

lemma find_win_Some:
  assumes "find_win ps i = Some (Some a)"
  shows "a \<in> set (windows ps) \<and> wid (wins ps a) = i \<and> i \<noteq> 0"
  using assms
  by (auto simp: find_win_def hash_find_int_def find_Some_iff split: if_splits option.splits)

lemma find_win_None:
  assumes "find_win ps i = Some None" "i \<noteq> 0"
  shows "\<forall>a \<in> set (windows ps). wid (wins ps a) \<noteq> i"
  using assms
  by (auto simp: find_win_def hash_find_int_def find_None_iff split: if_splits option.splits)

lemma unmap_win_proceeds:
  assumes "\<not> (\<not> destroy \<and> a_class_input_only (wins ps a))"
    "state (wins ps a) \<noteq> WSTATE_DESTROYING"
    "state (wins ps a) \<noteq> WSTATE_UNMAPPED" "\<not> a_class_input_only (wins ps a)"
    "state (wins ps a) \<noteq> (if destroy then WSTATE_DESTROYING else WSTATE_UNMAPPING)"
  shows "unmap_win opts fr focus ps a destroy =
     (let ps1 = (if destroy then ps\<lparr>windows := remove1 a (windows ps)\<rparr> else ps);
          ps2 = focus ps1;
          ps3 = upd_win ps2 a (\<lambda>v. v\<lparr>map_state := IsUnmapped,
                  state := (if destroy then WSTATE_DESTROYING else WSTATE_UNMAPPING)\<rparr>);
          ps4 = upd_win ps3 a (\<lambda>v. v\<lparr>opacity_tgt := win_calc_opacity_target opts fr v\<rparr>);
          ps5 = upd_win ps4 a (\<lambda>v. v\<lparr>in_openclose := destroy\<rparr>)
      in if \<not> redirected ps5 then win_skip_fading ps5 a else Some ps5)"
  using assms by (simp add: unmap_win_def Let_def)

lemma registry_inv_unmap_win:
  assumes inv: "registry_inv ps" and hash: "a \<in> set (windows ps)"
    and foc: "\<forall>q. touches q (focus q)"
    and res: "unmap_win opts fr focus ps a destroy = Some ps1"
  shows "registry_inv ps1"
proof -
  have nd: "state (wins ps a) \<noteq> WSTATE_DESTROYING" and stk: "a \<in> set (window_stack ps)"
    using inv hash unfolding registry_inv_def by blast+
  let ?tgt = "if destroy then WSTATE_DESTROYING else WSTATE_UNMAPPING"
  let ?p1 = "if destroy then ps\<lparr>windows := remove1 a (windows ps)\<rparr> else ps"
  consider (same) "ps1 = ps"
    | (gone) "destroy" "ps1 = finish_destroy_win ?p1 a"
    | (fade) "\<not> (\<not> destroy \<and> a_class_input_only (wins ps a))"
        "state (wins ps a) \<noteq> WSTATE_UNMAPPED" "\<not> a_class_input_only (wins ps a)"
        "state (wins ps a) \<noteq> ?tgt"
    using res nd by (auto simp: unmap_win_def Let_def split: if_splits)
  then show ?thesis
  proof cases
    case same
    then show ?thesis using inv by simp
  next
    case gone
    then show ?thesis
      using registry_inv_finish_destroy [OF registry_inv_hash_del [OF inv, of a]] by simp
  next
    case fade
    let ?p2 = "focus ?p1"
    let ?p3 = "upd_win ?p2 a (\<lambda>v. v\<lparr>map_state := IsUnmapped, state := ?tgt\<rparr>)"
    let ?p4 = "upd_win ?p3 a (\<lambda>v. v\<lparr>opacity_tgt := win_calc_opacity_target opts fr v\<rparr>)"
    let ?p5 = "upd_win ?p4 a (\<lambda>v. v\<lparr>in_openclose := destroy\<rparr>)"
    have r: "(if \<not> redirected ?p5 then win_skip_fading ?p5 a else Some ?p5) = Some ps1"
      using res unmap_win_proceeds [OF fade(1) nd fade(2,3,4), of opts fr focus]
      by (simp add: Let_def)
    have t: "touches ?p1 ?p2" using foc by blast
    have i5: "registry_inv ?p5"
    proof (cases destroy)
      case True
      have 1: "registry_inv_but a ?p1" using True registry_inv_hash_del [OF inv, of a] by simp
      have 2: "registry_inv_but a ?p2" using registry_inv_but_touches [OF 1 t] .
      have 3: "registry_inv_but a ?p3" by (rule registry_inv_but_upd [OF 2]) simp
      have 4: "registry_inv_but a ?p4" by (rule registry_inv_but_upd [OF 3]) simp
      have 5: "registry_inv_but a ?p5" by (rule registry_inv_but_upd [OF 4]) simp
      have "state (wins ?p5 a) = WSTATE_DESTROYING" using True by simp
      then show ?thesis using registry_inv_but_settled [OF 5] by blast
    next
      case False
      have 2: "registry_inv ?p2" using registry_inv_touches [OF _ t] inv False by simp
      have n2: "state (wins ?p2 a) \<noteq> WSTATE_DESTROYING"
        using t nd False unfolding touches_def by simp
      have 3: "registry_inv ?p3"
        using n2 False by (intro registry_inv_touches [OF 2] touches_upd_win) simp_all
      have n3: "state (wins ?p3 a) \<noteq> WSTATE_DESTROYING" using False by simp
      have 4: "registry_inv ?p4"
        by (intro registry_inv_touches [OF 3] touches_upd_win) simp_all
      show ?thesis
        by (intro registry_inv_touches [OF 4] touches_upd_win) simp_all
    qed
    show ?thesis
    proof (cases "redirected ?p5")
      case True
      then have "ps1 = ?p5" using r by simp
      then show ?thesis using i5 by simp
    next
      case False
      then have "win_skip_fading ?p5 a = Some ps1" using r by simp
      then show ?thesis by (rule registry_inv_skip_fading [OF i5])
    qed
  qed
qed

lemma insert_before_set:
  "set (insert_before new pw st) = insert new (set st)"
proof -
  have "set (take j st) \<union> set (drop j st) = set st" for j
    by (metis append_take_drop_id set_append)
  then show ?thesis by (auto simp: insert_before_def Let_def)
qed

lemma insert_before_distinct:
  assumes "distinct st" "new \<notin> set st"
  shows "distinct (insert_before new pw st)"
proof -
  let ?j = "find_slot (\<lambda>b. b = pw) st"
  have "distinct (take ?j st)" "distinct (drop ?j st)" using assms(1) by simp_all
  moreover have "set (take ?j st) \<inter> set (drop ?j st) = {}"
    using assms(1) by (metis append_take_drop_id distinct_append)
  moreover have "new \<notin> set (take ?j st)" "new \<notin> set (drop ?j st)"
    using assms(2) by (auto dest: in_set_takeD in_set_dropD)
  ultimately show ?thesis by (simp add: insert_before_def Let_def)
qed

lemma add_win_cases:
  assumes "add_win ps i prev a damage_ok new = Some ps1"
  shows "ps1 = ps \<or>
     (find_win ps i = Some None
      \<and> (\<exists>ms io st. a = Some (ms, io)
            \<and> set st = insert new (set (window_stack ps))
            \<and> (distinct (window_stack ps) \<and> new \<notin> set (window_stack ps) \<longrightarrow> distinct st)
            \<and> ps1 = ps\<lparr>wins := (wins ps)(new := win_def\<lparr>wid := i, map_state := ms,
                                                         a_class_input_only := io\<rparr>),
                        window_stack := st, windows := windows ps @ [new]\<rparr>))"
proof (cases "ps1 = ps")
  case True
  then show ?thesis by simp
next
  case False
  then obtain ms io where a: "a = Some (ms, io)" and f: "find_win ps i = Some None"
    using assms by (auto simp: add_win_def split: if_splits option.splits)
  let ?w = "win_def\<lparr>wid := i, map_state := ms, a_class_input_only := io\<rparr>"
  let ?q = "ps\<lparr>wins := (wins ps)(new := ?w)\<rparr>"
  show ?thesis
  proof (cases "prev = 0")
    case True
    then have e: "ps1 = ?q\<lparr>window_stack := new # window_stack ps, windows := windows ps @ [new]\<rparr>"
      using assms False a by (auto simp: add_win_def Let_def split: if_splits)
    have "\<exists>ms1 io1 st. a = Some (ms1, io1)
            \<and> set st = insert new (set (window_stack ps))
            \<and> (distinct (window_stack ps) \<and> new \<notin> set (window_stack ps) \<longrightarrow> distinct st)
            \<and> ps1 = ps\<lparr>wins := (wins ps)(new := win_def\<lparr>wid := i, map_state := ms1,
                                                         a_class_input_only := io1\<rparr>),
                        window_stack := st, windows := windows ps @ [new]\<rparr>"
      by (rule exI [of _ ms], rule exI [of _ io], rule exI [of _ "new # window_stack ps"])
        (simp add: a e)
    then show ?thesis using f by blast
  next
    case p: False
    then obtain pw where
      e: "ps1 = ?q\<lparr>window_stack := insert_before new pw (window_stack ps),
                 windows := windows ps @ [new]\<rparr>"
      using assms False a by (auto simp: add_win_def Let_def split: if_splits option.splits)
    have "\<exists>ms1 io1 st. a = Some (ms1, io1)
            \<and> set st = insert new (set (window_stack ps))
            \<and> (distinct (window_stack ps) \<and> new \<notin> set (window_stack ps) \<longrightarrow> distinct st)
            \<and> ps1 = ps\<lparr>wins := (wins ps)(new := win_def\<lparr>wid := i, map_state := ms1,
                                                         a_class_input_only := io1\<rparr>),
                        window_stack := st, windows := windows ps @ [new]\<rparr>"
      by (rule exI [of _ ms], rule exI [of _ io],
          rule exI [of _ "insert_before new pw (window_stack ps)"])
        (simp add: a e insert_before_set insert_before_distinct)
    then show ?thesis using f by blast
  qed
qed

lemma registry_inv_add_win:
  assumes inv: "registry_inv ps" and i: "i \<noteq> 0" and new: "new \<notin> set (window_stack ps)"
    and res: "add_win ps i prev a damage_ok new = Some ps1"
  shows "registry_inv ps1"
proof -
  from add_win_cases [OF res] show ?thesis
  proof
    assume "ps1 = ps"
    then show ?thesis using inv by simp
  next
    assume "find_win ps i = Some None
      \<and> (\<exists>ms io st. a = Some (ms, io)
            \<and> set st = insert new (set (window_stack ps))
            \<and> (distinct (window_stack ps) \<and> new \<notin> set (window_stack ps) \<longrightarrow> distinct st)
            \<and> ps1 = ps\<lparr>wins := (wins ps)(new := win_def\<lparr>wid := i, map_state := ms,
                                                         a_class_input_only := io\<rparr>),
                        window_stack := st, windows := windows ps @ [new]\<rparr>)"
    then obtain ms io st where f: "find_win ps i = Some None"
      and st: "set st = insert new (set (window_stack ps))"
        "distinct (window_stack ps) \<and> new \<notin> set (window_stack ps) \<longrightarrow> distinct st"
      and p: "ps1 = ps\<lparr>wins := (wins ps)(new := win_def\<lparr>wid := i, map_state := ms,
                                                         a_class_input_only := io\<rparr>),
                        window_stack := st, windows := windows ps @ [new]\<rparr>"
      by blast
    have nw: "new \<notin> set (windows ps)" using inv new unfolding registry_inv_def by blast
    have fresh: "\<forall>b \<in> set (windows ps). wid (wins ps b) \<noteq> i"
      using find_win_None [OF f i] .
    have old: "wins ps1 b = wins ps b" if "b \<noteq> new" for b using that p by simp
    have nw1: "wid (wins ps1 new) = i" "state (wins ps1 new) = WSTATE_UNMAPPED"
      using p by (simp_all add: win_def_def)
    have c1: "distinct (window_stack ps1)" using st(2) inv new p by (simp add: registry_inv_def)
    have c2: "distinct (windows ps1)" using inv nw p by (simp add: registry_inv_def)
    have c3: "b \<in> set (windows ps1) \<longleftrightarrow>
        b \<in> set (window_stack ps1) \<and> state (wins ps1 b) \<noteq> WSTATE_DESTROYING" for b
    proof (cases "b = new")
      case True
      then show ?thesis using nw1 p st(1) by simp
    next
      case False
      then show ?thesis using inv old [OF False] p st(1) unfolding registry_inv_def by simp
    qed
    have c4: "\<forall>b \<in> set (windows ps1). wid (wins ps1 b) \<noteq> 0"
    proof
      fix b assume "b \<in> set (windows ps1)"
      then show "wid (wins ps1 b) \<noteq> 0"
        using inv i nw1(1) old [of b] p unfolding registry_inv_def by (cases "b = new") auto
    qed
    have c5: "\<forall>b \<in> set (windows ps1). \<forall>c \<in> set (windows ps1).
        wid (wins ps1 b) = wid (wins ps1 c) \<longrightarrow> b = c"
    proof (intro ballI impI)
      fix b c assume b: "b \<in> set (windows ps1)" and c: "c \<in> set (windows ps1)"
        and e: "wid (wins ps1 b) = wid (wins ps1 c)"
      have m: "x \<in> set (windows ps1) \<Longrightarrow> x = new \<or> x \<in> set (windows ps)" for x
        using p by auto
      show "b = c"
      proof (cases "b = new")
        case True
        show ?thesis
        proof (cases "c = new")
          case True
          with \<open>b = new\<close> show ?thesis by simp
        next
          case False
          then have "c \<in> set (windows ps)" using m [OF c] by simp
          then have "wid (wins ps1 c) \<noteq> i" using fresh old [OF False] by simp
          then show ?thesis using e True nw1(1) by simp
        qed
      next
        case False
        then have bo: "b \<in> set (windows ps)" using m [OF b] by simp
        show ?thesis
        proof (cases "c = new")
          case True
          have "wid (wins ps1 b) \<noteq> i" using fresh bo old [OF False] by simp
          then show ?thesis using e True nw1(1) by simp
        next
          case cf: False
          then have co: "c \<in> set (windows ps)" using m [OF c] by simp
          show ?thesis
            using inv bo co e old [OF False] old [OF cf] unfolding registry_inv_def by simp
        qed
      qed
    qed
    show ?thesis unfolding registry_inv_def using c1 c2 c3 c4 c5 by blast
  qed
qed

lemma registry_inv_init: "registry_inv (session_init r ov)"
  by (simp add: registry_inv_def session_init_def)

lemma registry_inv_apply_event:
  assumes inv: "registry_inv ps" and ok: "event_ok ps ev"
    and res: "apply_event opts fr ev ps = Some ps1"
  shows "registry_inv ps1"
proof (cases ev)
  case (Add_win i prev a damage_ok new)
  have i0: "i \<noteq> 0" and nw: "new \<notin> set (window_stack ps)"
    using ok unfolding Add_win by simp_all
  have r: "add_win ps i prev a damage_ok new = Some ps1"
    using res unfolding Add_win by simp
  show ?thesis using registry_inv_add_win [OF inv i0 nw r] .
next
  case (Unmap_win i destroy focus)
  show ?thesis
  proof (cases "find_win ps i")
    case None
    then show ?thesis using res unfolding Unmap_win by simp
  next
    case (Some r)
    show ?thesis
    proof (cases r)
      case None
      have "ps1 = ps" using res unfolding Unmap_win by (simp add: Some None)
      then show ?thesis using inv by simp
    next
      case found: (Some a)
      have fw: "find_win ps i = Some (Some a)" using Some found by simp
      have h: "a \<in> set (windows ps)" using find_win_Some [OF fw] by simp
      have f: "\<forall>q. touches q (focus q)" using ok unfolding Unmap_win by simp
      have r: "unmap_win opts fr focus ps a destroy = Some ps1"
        using res unfolding Unmap_win by (simp add: fw)
      show ?thesis using registry_inv_unmap_win [OF inv h f r] .
    qed
  qed
next
  case (Check_fade a)
  have "win_check_fade_finished ps a = Some ps1" using res unfolding Check_fade by simp
  then show ?thesis by (rule registry_inv_check_fade [OF inv])
next
  case (Skip_fading a)
  have "win_skip_fading ps a = Some ps1" using res unfolding Skip_fading by simp
  then show ?thesis by (rule registry_inv_skip_fading [OF inv])
next
  case (Touch f)
  have e: "ps1 = f ps" using res unfolding Touch by simp
  have t: "touches ps (f ps)" using ok unfolding Touch by simp
  show ?thesis unfolding e using registry_inv_touches [OF inv t] .
next
  case (Redirect b)
  have e: "ps1 = ps\<lparr>redirected := b\<rparr>" using res unfolding Redirect by simp
  show ?thesis unfolding e using inv unfolding registry_inv_def by simp
qed

lemma registry_inv_run:
  assumes "registry_inv ps" "events_ok opts fr evs ps" "run opts fr evs ps = Some ps1"
  shows "registry_inv ps1"
  using assms
proof (induction evs arbitrary: ps)
  case Nil
  then show ?case by simp
next
  case (Cons ev evs)
  obtain q where q: "apply_event opts fr ev ps = Some q"
    using Cons.prems(3) by (cases "apply_event opts fr ev ps") simp_all
  have 1: "registry_inv q"
    using registry_inv_apply_event [OF Cons.prems(1) _ q] Cons.prems(2) by simp
  have 2: "events_ok opts fr evs q" using Cons.prems(2) q by simp
  have 3: "run opts fr evs q = Some ps1" using Cons.prems(3) q by simp
  show ?case using Cons.IH [OF 1 2 3] .
qed

lemma registry_inv_index:
  assumes inv: "registry_inv ps" and f: "find_win ps i = Some (Some a)"
  shows "a \<in> set (window_stack ps) \<and> wid (wins ps a) = i
     \<and> state (wins ps a) \<noteq> WSTATE_DESTROYING
     \<and> (\<forall>b \<in> set (window_stack ps).
           wid (wins ps b) = i \<and> state (wins ps b) \<noteq> WSTATE_DESTROYING \<longrightarrow> b = a)"
proof -
  have h: "a \<in> set (windows ps)" and hi: "wid (wins ps a) = i"
    using find_win_Some [OF f] by blast+
  have m: "\<forall>b. b \<in> set (windows ps) \<longleftrightarrow>
        b \<in> set (window_stack ps) \<and> state (wins ps b) \<noteq> WSTATE_DESTROYING"
    using inv unfolding registry_inv_def by blast
  have u: "\<forall>b \<in> set (windows ps). \<forall>c \<in> set (windows ps).
           wid (wins ps b) = wid (wins ps c) \<longrightarrow> b = c"
    using inv unfolding registry_inv_def by blast
  have 1: "a \<in> set (window_stack ps)" and 2: "state (wins ps a) \<noteq> WSTATE_DESTROYING"
    using h m by blast+
  have 3: "b = a" if b: "b \<in> set (window_stack ps)"
    "wid (wins ps b) = i \<and> state (wins ps b) \<noteq> WSTATE_DESTROYING" for b
  proof -
    have hb: "b \<in> set (windows ps)" using m b by blast
    have "wid (wins ps b) = wid (wins ps a)" using b(2) hi by simp
    then show ?thesis using u h hb by blast
  qed
  show ?thesis
  proof (intro conjI ballI impI)
    show "a \<in> set (window_stack ps)" by (rule 1)
    show "wid (wins ps a) = i" by (rule hi)
    show "state (wins ps a) \<noteq> WSTATE_DESTROYING" by (rule 2)
    show "b = a" if "b \<in> set (window_stack ps)"
      "wid (wins ps b) = i \<and> state (wins ps b) \<noteq> WSTATE_DESTROYING" for b
      using that by (rule 3)
  qed
qed

lemma find_win_absent:
  assumes "\<forall>b \<in> set (windows ps). wid (wins ps b) \<noteq> i"
  shows "find_win ps i = Some None"
proof -
  have "hash_find_int ps i = None" using assms by (simp add: hash_find_int_def find_None_iff)
  then show ?thesis by (simp add: find_win_def)
qed

lemma find_win_returns:
  assumes inv: "registry_inv ps"
  shows "find_win ps i \<noteq> None"
proof (cases "hash_find_int ps i")
  case None
  then show ?thesis by (simp add: find_win_def)
next
  case (Some a)
  then have "a \<in> set (windows ps)" by (auto simp: hash_find_int_def find_Some_iff)
  then have "state (wins ps a) \<noteq> WSTATE_DESTROYING"
    using inv unfolding registry_inv_def by blast
  then show ?thesis using Some by (simp add: find_win_def)
qed

lemma destroy_mid_fade:
  assumes inv: "registry_inv ps" and f: "find_win ps i = Some (Some a)"
    and st: "state (wins ps a) \<noteq> WSTATE_UNMAPPED" and io: "\<not> a_class_input_only (wins ps a)"
    and red: "redirected ps" and foc: "\<forall>q. touches q (focus q)"
  shows "\<exists>ps1. unmap_win opts fr focus ps a True = Some ps1
     \<and> registry_inv ps1 \<and> find_win ps1 i = Some None
     \<and> window_stack ps1 = window_stack ps \<and> a \<in> set (window_stack ps1)
     \<and> state (wins ps1 a) = WSTATE_DESTROYING \<and> opacity_tgt (wins ps1 a) = 0"
proof -
  have ix: "a \<in> set (window_stack ps)" "wid (wins ps a) = i"
    "state (wins ps a) \<noteq> WSTATE_DESTROYING"
    using registry_inv_index [OF inv f] by blast+
  have h: "a \<in> set (windows ps)" using find_win_Some [OF f] by simp
  let ?p1 = "ps\<lparr>windows := remove1 a (windows ps)\<rparr>"
  let ?p2 = "focus ?p1"
  let ?p3 = "upd_win ?p2 a (\<lambda>v. v\<lparr>map_state := IsUnmapped, state := WSTATE_DESTROYING\<rparr>)"
  let ?p4 = "upd_win ?p3 a (\<lambda>v. v\<lparr>opacity_tgt := win_calc_opacity_target opts fr v\<rparr>)"
  let ?p5 = "upd_win ?p4 a (\<lambda>v. v\<lparr>in_openclose := True\<rparr>)"
  have t: "touches ?p1 ?p2" using foc by simp
  have r5: "redirected ?p5" using t red by (simp add: touches_def)
  have e: "unmap_win opts fr focus ps a True = Some ?p5"
    using unmap_win_proceeds [of True ps a opts fr focus] ix(3) st io r5
    by (simp add: Let_def)
  have inv1: "registry_inv ?p5"
    using registry_inv_unmap_win [OF inv h foc e] .
  have stk: "window_stack ?p5 = window_stack ps" using t by (simp add: touches_def)
  have hsh: "windows ?p5 = remove1 a (windows ps)" using t by (simp add: touches_def)
  have d: "distinct (windows ps)" using inv by (simp add: registry_inv_def)
  have s: "set (remove1 a (windows ps)) = set (windows ps) - {a}"
    using d by (rule set_remove1_eq)
  have w2: "wid (wins ?p2 b) = wid (wins ps b)" for b
    using t by (simp add: touches_def)
  have w5: "wid (wins ?p5 b) = wid (wins ps b)" for b
    using w2 [of b] by (cases "b = a") simp_all
  have u: "b \<in> set (windows ps) \<Longrightarrow> wid (wins ps b) = wid (wins ps a) \<Longrightarrow> b = a" for b
    using inv h unfolding registry_inv_def by blast
  have ne: "wid (wins ps b) \<noteq> i" if "b \<in> set (windows ps) - {a}" for b
    using u [of b] that ix(2) by auto
  have gone: "find_win ?p5 i = Some None"
  proof (rule find_win_absent)
    show "\<forall>b \<in> set (windows ?p5). wid (wins ?p5 b) \<noteq> i"
      unfolding hsh s w5 using ne by blast
  qed
  have s5: "state (wins ?p5 a) = WSTATE_DESTROYING" by simp
  have o5: "opacity_tgt (wins ?p5 a) = 0" by (simp add: win_calc_opacity_target_def)
  have in5: "a \<in> set (window_stack ?p5)" using ix(1) stk by simp
  show ?thesis
    by (rule exI [of _ ?p5]) (intro conjI; fact)
qed

lemma find_append_new:
  assumes "\<forall>b \<in> set xs. \<not> P b" "P n"
  shows "find P (xs @ [n]) = Some n"
  using assms by (induction xs) simp_all

lemma add_win_fresh:
  assumes none: "find_win ps i = Some None" and i0: "i \<noteq> 0" and ov: "i \<noteq> overlay ps"
    and new: "new \<notin> set (window_stack ps)" and hs: "set (windows ps) \<subseteq> set (window_stack ps)"
    and ms: "ms \<noteq> IsUnviewable" and dm: "input_only \<or> damage_ok"
    and pv: "prev = 0 \<or> hash_find_int ps prev \<noteq> None"
  shows "\<exists>ps1. add_win ps i prev (Some (ms, input_only)) damage_ok new = Some ps1
     \<and> find_win ps1 i = Some (Some new)
     \<and> set (window_stack ps1) = insert new (set (window_stack ps))
     \<and> wins ps1 new = win_def\<lparr>wid := i, map_state := ms, a_class_input_only := input_only\<rparr>
     \<and> (\<forall>b. b \<noteq> new \<longrightarrow> wins ps1 b = wins ps b)"
proof -
  let ?w = "win_def\<lparr>wid := i, map_state := ms, a_class_input_only := input_only\<rparr>"
  obtain st where st: "set st = insert new (set (window_stack ps))"
    and e: "add_win ps i prev (Some (ms, input_only)) damage_ok new =
      Some (ps\<lparr>wins := (wins ps)(new := ?w), window_stack := st,
                windows := windows ps @ [new]\<rparr>)"
  proof (cases "prev = 0")
    case True
    have "add_win ps i prev (Some (ms, input_only)) damage_ok new =
      Some (ps\<lparr>wins := (wins ps)(new := ?w), window_stack := new # window_stack ps,
                windows := windows ps @ [new]\<rparr>)"
      using none ov ms dm True by (auto simp: add_win_def Let_def)
    then show ?thesis using that [of "new # window_stack ps"] by simp
  next
    case False
    then obtain pw where pw: "hash_find_int ps prev = Some pw" using pv by blast
    have "add_win ps i prev (Some (ms, input_only)) damage_ok new =
      Some (ps\<lparr>wins := (wins ps)(new := ?w),
                window_stack := insert_before new pw (window_stack ps),
                windows := windows ps @ [new]\<rparr>)"
      using none ov ms dm False pw by (auto simp: add_win_def Let_def)
    then show ?thesis
      using that [of "insert_before new pw (window_stack ps)"] by (simp add: insert_before_set)
  qed
  let ?q = "ps\<lparr>wins := (wins ps)(new := ?w), window_stack := st,
               windows := windows ps @ [new]\<rparr>"
  have nh: "new \<notin> set (windows ps)" using new hs by blast
  have a: "\<forall>b \<in> set (windows ps). \<not> wid (wins ?q b) = i"
    using find_win_None [OF none i0] nh by auto
  have h: "hash_find_int ?q i = Some new"
    using find_append_new [of "windows ps" "\<lambda>b. wid (wins ?q b) = i" new, OF a]
    by (simp add: hash_find_int_def)
  have f: "find_win ?q i = Some (Some new)"
    using i0 h by (simp add: find_win_def win_def_def)
  have s1: "set (window_stack ?q) = insert new (set (window_stack ps))" using st by simp
  have s2: "wins ?q new = ?w" by simp
  have s3: "\<forall>b. b \<noteq> new \<longrightarrow> wins ?q b = wins ps b" by simp
  show ?thesis
    by (rule exI [of _ ?q]) (intro conjI; fact)
qed

lemma check_fade_destroying:
  assumes "state (wins ps a) = WSTATE_DESTROYING"
  shows "win_check_fade_finished ps a =
     Some (if opacity (wins ps a) = opacity_tgt (wins ps a) then finish_destroy_win ps a else ps)"
  using assms by (simp add: win_check_fade_finished_def Let_def)

lemma finish_destroy_win_keeps:
  assumes "a \<noteq> b" "a \<in> set (window_stack ps)"
  shows "a \<in> set (window_stack (finish_destroy_win ps b))
     \<and> state (wins (finish_destroy_win ps b) a) = state (wins ps a)"
  using assms finish_destroy_win_other [of a b ps]
  by (simp add: finish_destroy_win_lists)

lemma check_fade_keeps:
  assumes ab: "a \<noteq> b" and st: "a \<in> set (window_stack ps)"
    and res: "win_check_fade_finished ps b = Some ps1"
  shows "a \<in> set (window_stack ps1) \<and> state (wins ps1 a) = state (wins ps a)"
proof -
  consider "ps1 = ps" | "ps1 = finish_unmap_win ps b" | "ps1 = finish_destroy_win ps b"
    | "ps1 = finish_map_win ps b" | "ps1 = upd_win ps b (\<lambda>v. v\<lparr>state := WSTATE_MAPPED\<rparr>)"
    using res
    by (cases "state (wins ps b)")
      (auto simp: win_check_fade_finished_def Let_def split: if_splits)
  then show ?thesis
  proof cases
    case 1
    then show ?thesis using st by simp
  next
    case 2
    then show ?thesis using st ab by (simp add: finish_unmap_win_def)
  next
    case 3
    then show ?thesis using finish_destroy_win_keeps [OF ab st] by simp
  next
    case 4
    then show ?thesis using st ab by (simp add: finish_map_win_def)
  next
    case 5
    then show ?thesis using st ab by simp
  qed
qed

lemma skip_fading_keeps:
  assumes ab: "a \<noteq> b" and st: "a \<in> set (window_stack ps)"
    and res: "win_skip_fading ps b = Some ps1"
  shows "a \<in> set (window_stack ps1) \<and> state (wins ps1 a) = state (wins ps a)"
proof (cases "state (wins ps b) = WSTATE_MAPPED \<or> state (wins ps b) = WSTATE_UNMAPPED")
  case True
  then have "ps1 = ps"
    using res by (simp add: win_skip_fading_def Let_def split: if_splits)
  then show ?thesis using st by simp
next
  case False
  let ?q = "upd_win ps b (\<lambda>v. v\<lparr>opacity := opacity_tgt v\<rparr>)"
  have r: "win_check_fade_finished ?q b = Some ps1"
    using res False by (simp add: win_skip_fading_def Let_def)
  have s: "a \<in> set (window_stack ?q)" using st by simp
  show ?thesis using check_fade_keeps [OF ab s r] ab by simp
qed

lemma unmap_win_keeps:
  assumes ab: "a \<noteq> b" and st: "a \<in> set (window_stack ps)"
    and ds: "state (wins ps a) = WSTATE_DESTROYING"
    and foc: "\<forall>q. touches q (focus q)"
    and res: "unmap_win opts fr focus ps b d = Some ps1"
  shows "a \<in> set (window_stack ps1) \<and> state (wins ps1 a) = WSTATE_DESTROYING"
proof -
  let ?tgt = "if d then WSTATE_DESTROYING else WSTATE_UNMAPPING"
  let ?p1 = "if d then ps\<lparr>windows := remove1 b (windows ps)\<rparr> else ps"
  let ?p2 = "focus ?p1"
  let ?p3 = "upd_win ?p2 b (\<lambda>v. v\<lparr>map_state := IsUnmapped, state := ?tgt\<rparr>)"
  let ?p4 = "upd_win ?p3 b (\<lambda>v. v\<lparr>opacity_tgt := win_calc_opacity_target opts fr v\<rparr>)"
  let ?p5 = "upd_win ?p4 b (\<lambda>v. v\<lparr>in_openclose := d\<rparr>)"
  consider (same) "ps1 = ps" | (same1) "ps1 = ?p1"
    | (gone) "ps1 = finish_destroy_win ?p1 b"
    | (fade) "(if \<not> redirected ?p5 then win_skip_fading ?p5 b else Some ?p5) = Some ps1"
  proof (cases "\<not> d \<and> a_class_input_only (wins ps b)")
    case True
    then have "ps1 = ps" using res by (simp add: unmap_win_def Let_def)
    then show ?thesis by (rule that(1))
  next
    case c1: False
    show ?thesis
    proof (cases "state (wins ps b) = WSTATE_DESTROYING \<and> \<not> d")
      case True
      then have False using res c1 by (simp add: unmap_win_def Let_def)
      then show ?thesis ..
    next
      case c2: False
      show ?thesis
      proof (cases "state (wins ps b) = ?tgt")
        case True
        then have "ps1 = ps" using res c1 c2 by (cases d) (simp_all add: unmap_win_def Let_def)
        then show ?thesis by (rule that(1))
      next
        case c3: False
        have nd: "state (wins ps b) \<noteq> WSTATE_DESTROYING" using c2 c3 by (cases d) simp_all
        show ?thesis
        proof (cases "state (wins ps b) = WSTATE_UNMAPPED \<or> a_class_input_only (wins ps b)")
          case True
          show ?thesis
          proof (cases d)
            case True
            have "ps1 = finish_destroy_win ?p1 b"
              using res c1 c2 c3 \<open>state (wins ps b) = WSTATE_UNMAPPED
                  \<or> a_class_input_only (wins ps b)\<close> True
              by (simp add: unmap_win_def Let_def)
            then show ?thesis by (rule that(3))
          next
            case False
            have "ps1 = ?p1"
              using res c1 c2 c3 \<open>state (wins ps b) = WSTATE_UNMAPPED
                  \<or> a_class_input_only (wins ps b)\<close> False
              by (simp add: unmap_win_def Let_def)
            then show ?thesis by (rule that(2))
          qed
        next
          case False
          then have c4: "state (wins ps b) \<noteq> WSTATE_UNMAPPED"
            "\<not> a_class_input_only (wins ps b)" by simp_all
          have "(if \<not> redirected ?p5 then win_skip_fading ?p5 b else Some ?p5) = Some ps1"
            using res unmap_win_proceeds [OF c1 nd c4 c3, of opts fr focus]
            by (simp add: Let_def)
          then show ?thesis by (rule that(4))
        qed
      qed
    qed
  qed
  then show ?thesis
  proof cases
    case same
    then show ?thesis using st ds by simp
  next
    case same1
    then show ?thesis using st ds by simp
  next
    case gone
    have "a \<in> set (window_stack ?p1)" using st by simp
    from finish_destroy_win_keeps [OF ab this] show ?thesis using gone ds by simp
  next
    case fade
    have t: "touches ?p1 ?p2" using foc by blast
    have s5: "a \<in> set (window_stack ?p5)" using t st by (simp add: touches_def)
    have "state (wins ?p2 a) = WSTATE_DESTROYING" using t ds by (simp add: touches_def)
    then have d5: "state (wins ?p5 a) = WSTATE_DESTROYING" using ab by simp
    show ?thesis
    proof (cases "redirected ?p5")
      case True
      then have "ps1 = ?p5" using fade by simp
      then show ?thesis using s5 d5 by simp
    next
      case False
      then have "win_skip_fading ?p5 b = Some ps1" using fade by simp
      from skip_fading_keeps [OF ab s5 this] show ?thesis using d5 by simp
    qed
  qed
qed

lemma add_win_keeps:
  assumes "a \<in> set (window_stack ps)" "new \<notin> set (window_stack ps)"
    and res: "add_win ps i prev attr damage_ok new = Some ps1"
  shows "a \<in> set (window_stack ps1) \<and> wins ps1 a = wins ps a"
proof -
  have ne: "a \<noteq> new" using assms(1,2) by blast
  from add_win_cases [OF res] show ?thesis
  proof
    assume "ps1 = ps"
    then show ?thesis using assms(1) by simp
  next
    assume "find_win ps i = Some None
      \<and> (\<exists>ms io st. attr = Some (ms, io)
            \<and> set st = insert new (set (window_stack ps))
            \<and> (distinct (window_stack ps) \<and> new \<notin> set (window_stack ps) \<longrightarrow> distinct st)
            \<and> ps1 = ps\<lparr>wins := (wins ps)(new := win_def\<lparr>wid := i, map_state := ms,
                                                         a_class_input_only := io\<rparr>),
                        window_stack := st, windows := windows ps @ [new]\<rparr>)"
    then obtain ms io st where st: "set st = insert new (set (window_stack ps))"
      and p: "ps1 = ps\<lparr>wins := (wins ps)(new := win_def\<lparr>wid := i, map_state := ms,
                                                         a_class_input_only := io\<rparr>),
                        window_stack := st, windows := windows ps @ [new]\<rparr>"
      by blast
    show ?thesis using st assms(1) ne unfolding p by simp
  qed
qed

lemma destroying_stays:
  assumes inv: "registry_inv ps" and st: "a \<in> set (window_stack ps)"
    and ds: "state (wins ps a) = WSTATE_DESTROYING"
    and ok: "event_ok ps ev" and res: "apply_event opts fr ev ps = Some ps1"
    and ne: "\<not> (ev = Skip_fading a
                \<or> ev = Check_fade a \<and> opacity (wins ps a) = opacity_tgt (wins ps a))"
  shows "a \<in> set (window_stack ps1) \<and> state (wins ps1 a) = WSTATE_DESTROYING"
proof (cases ev)
  case (Add_win i prev attr damage_ok new)
  have nw: "new \<notin> set (window_stack ps)" using ok unfolding Add_win by simp
  have r: "add_win ps i prev attr damage_ok new = Some ps1" using res unfolding Add_win by simp
  show ?thesis using add_win_keeps [OF st nw r] ds by simp
next
  case (Unmap_win i d focus)
  show ?thesis
  proof (cases "find_win ps i")
    case None
    then show ?thesis using res unfolding Unmap_win by simp
  next
    case (Some r)
    show ?thesis
    proof (cases r)
      case None
      have "ps1 = ps" using res unfolding Unmap_win by (simp add: Some None)
      then show ?thesis using st ds by simp
    next
      case found: (Some b)
      have fw: "find_win ps i = Some (Some b)" using Some found by simp
      have "state (wins ps b) \<noteq> WSTATE_DESTROYING"
        using registry_inv_index [OF inv fw] by blast
      then have ab: "a \<noteq> b" using ds by auto
      have f: "\<forall>q. touches q (focus q)" using ok unfolding Unmap_win by simp
      have r: "unmap_win opts fr focus ps b d = Some ps1"
        using res unfolding Unmap_win by (simp add: fw)
      show ?thesis using unmap_win_keeps [OF ab st ds f r] .
    qed
  qed
next
  case (Check_fade b)
  have r: "win_check_fade_finished ps b = Some ps1" using res unfolding Check_fade by simp
  show ?thesis
  proof (cases "a = b")
    case True
    then have "opacity (wins ps a) \<noteq> opacity_tgt (wins ps a)" using ne Check_fade by simp
    then have "ps1 = ps" using r True ds by (simp add: check_fade_destroying)
    then show ?thesis using st ds by simp
  next
    case False
    show ?thesis using check_fade_keeps [OF False st r] ds by simp
  qed
next
  case (Skip_fading b)
  have r: "win_skip_fading ps b = Some ps1" using res unfolding Skip_fading by simp
  have ab: "a \<noteq> b" using ne Skip_fading by simp
  show ?thesis using skip_fading_keeps [OF ab st r] ds by simp
next
  case (Touch f)
  have e: "ps1 = f ps" using res unfolding Touch by simp
  have t: "touches ps (f ps)" using ok unfolding Touch by simp
  show ?thesis unfolding e using t st ds by (simp add: touches_def)
next
  case (Redirect b)
  have e: "ps1 = ps\<lparr>redirected := b\<rparr>" using res unfolding Redirect by simp
  show ?thesis unfolding e using st ds by simp
qed

lemma destroying_leaves:
  assumes inv: "registry_inv ps"
    and ds: "state (wins ps a) = WSTATE_DESTROYING"
    and res: "apply_event opts fr ev ps = Some ps1"
    and ev: "ev = Skip_fading a
                \<or> ev = Check_fade a \<and> opacity (wins ps a) = opacity_tgt (wins ps a)"
  shows "a \<notin> set (window_stack ps1)"
proof -
  have d: "distinct (window_stack ps)" using inv by (simp add: registry_inv_def)
  have "ps1 = finish_destroy_win ps a
      \<or> ps1 = finish_destroy_win (upd_win ps a (\<lambda>v. v\<lparr>opacity := opacity_tgt v\<rparr>)) a"
    using ev res ds
    by (auto simp: win_skip_fading_def Let_def check_fade_destroying)
  then show ?thesis using d by (auto simp: finish_destroy_win_lists)
qed

text \<open>
  Claim C3. In every state a run of events reaches from the empty session: \<open>find_win\<close>
  returns (its assertion holds), and a window it returns for an id is a window of the
  stack with that id that is not in destruction, the only such window of the stack. When
  a window found for an id is destroyed while it is shown or fading and the screen is
  redirected, a lookup of the id finds nothing afterwards, the window is still where it was
  in the stack, in destruction and with opacity target 0, and a window created with the
  same id is a new window of the stack, found by the id and initialised from \<open>win_def\<close>,
  that leaves the window in destruction as it is. A window in destruction leaves the stack
  only when its fade is skipped or is checked with the opacity at the target; after every
  other event it is still a window of the stack, in destruction.
\<close>

theorem destroyed_window_registry:
  assumes ok: "events_ok opts fr evs (session_init r ov)"
    and res: "run opts fr evs (session_init r ov) = Some ps"
  shows "(\<forall>i. find_win ps i \<noteq> None)
    \<and> (\<forall>i a. find_win ps i = Some (Some a) \<longrightarrow>
          a \<in> set (window_stack ps) \<and> wid (wins ps a) = i
          \<and> state (wins ps a) \<noteq> WSTATE_DESTROYING
          \<and> (\<forall>b \<in> set (window_stack ps).
                wid (wins ps b) = i \<and> state (wins ps b) \<noteq> WSTATE_DESTROYING \<longrightarrow> b = a))
    \<and> (\<forall>i a focus.
          find_win ps i = Some (Some a) \<and> state (wins ps a) \<noteq> WSTATE_UNMAPPED
          \<and> \<not> a_class_input_only (wins ps a) \<and> redirected ps
          \<and> (\<forall>q. touches q (focus q)) \<longrightarrow>
          (\<exists>ps1. apply_event opts fr (Unmap_win i True focus) ps = Some ps1
             \<and> find_win ps1 i = Some None
             \<and> window_stack ps1 = window_stack ps \<and> a \<in> set (window_stack ps1)
             \<and> state (wins ps1 a) = WSTATE_DESTROYING \<and> opacity_tgt (wins ps1 a) = 0
             \<and> (\<forall>prev ms io dm new.
                   new \<notin> set (window_stack ps1) \<and> i \<noteq> overlay ps1
                   \<and> ms \<noteq> IsUnviewable \<and> (io \<or> dm)
                   \<and> (prev = 0 \<or> hash_find_int ps1 prev \<noteq> None) \<longrightarrow>
                   (\<exists>ps2. apply_event opts fr (Add_win i prev (Some (ms, io)) dm new) ps1
                             = Some ps2
                      \<and> find_win ps2 i = Some (Some new) \<and> new \<noteq> a
                      \<and> set (window_stack ps2) = insert new (set (window_stack ps1))
                      \<and> wins ps2 a = wins ps1 a
                      \<and> wins ps2 new = win_def\<lparr>wid := i, map_state := ms,
                                                 a_class_input_only := io\<rparr>))))
    \<and> (\<forall>a ev ps1.
          a \<in> set (window_stack ps) \<and> state (wins ps a) = WSTATE_DESTROYING
          \<and> event_ok ps ev \<and> apply_event opts fr ev ps = Some ps1 \<longrightarrow>
          (if ev = Skip_fading a
              \<or> ev = Check_fade a \<and> opacity (wins ps a) = opacity_tgt (wins ps a)
           then a \<notin> set (window_stack ps1)
           else a \<in> set (window_stack ps1) \<and> state (wins ps1 a) = WSTATE_DESTROYING))"
proof -
  have inv: "registry_inv ps" using registry_inv_run [OF registry_inv_init ok res] .
  have c1: "\<forall>i. find_win ps i \<noteq> None" using find_win_returns [OF inv] by blast
  have c2: "\<forall>i a. find_win ps i = Some (Some a) \<longrightarrow>
          a \<in> set (window_stack ps) \<and> wid (wins ps a) = i
          \<and> state (wins ps a) \<noteq> WSTATE_DESTROYING
          \<and> (\<forall>b \<in> set (window_stack ps).
                wid (wins ps b) = i \<and> state (wins ps b) \<noteq> WSTATE_DESTROYING \<longrightarrow> b = a)"
    using registry_inv_index [OF inv] by blast
  have c3: "\<forall>i a focus.
          find_win ps i = Some (Some a) \<and> state (wins ps a) \<noteq> WSTATE_UNMAPPED
          \<and> \<not> a_class_input_only (wins ps a) \<and> redirected ps
          \<and> (\<forall>q. touches q (focus q)) \<longrightarrow>
          (\<exists>ps1. apply_event opts fr (Unmap_win i True focus) ps = Some ps1
             \<and> find_win ps1 i = Some None
             \<and> window_stack ps1 = window_stack ps \<and> a \<in> set (window_stack ps1)
             \<and> state (wins ps1 a) = WSTATE_DESTROYING \<and> opacity_tgt (wins ps1 a) = 0
             \<and> (\<forall>prev ms io dm new.
                   new \<notin> set (window_stack ps1) \<and> i \<noteq> overlay ps1
                   \<and> ms \<noteq> IsUnviewable \<and> (io \<or> dm)
                   \<and> (prev = 0 \<or> hash_find_int ps1 prev \<noteq> None) \<longrightarrow>
                   (\<exists>ps2. apply_event opts fr (Add_win i prev (Some (ms, io)) dm new) ps1
                             = Some ps2
                      \<and> find_win ps2 i = Some (Some new) \<and> new \<noteq> a
                      \<and> set (window_stack ps2) = insert new (set (window_stack ps1))
                      \<and> wins ps2 a = wins ps1 a
                      \<and> wins ps2 new = win_def\<lparr>wid := i, map_state := ms,
                                                 a_class_input_only := io\<rparr>)))"
  proof (intro allI impI)
    fix i a focus
    assume h: "find_win ps i = Some (Some a) \<and> state (wins ps a) \<noteq> WSTATE_UNMAPPED
          \<and> \<not> a_class_input_only (wins ps a) \<and> redirected ps
          \<and> (\<forall>q. touches q (focus q))"
    then have f: "find_win ps i = Some (Some a)" and h2: "state (wins ps a) \<noteq> WSTATE_UNMAPPED"
      and h3: "\<not> a_class_input_only (wins ps a)" and h4: "redirected ps"
      and h5: "\<forall>q. touches q (focus q)" by blast+
    have i0: "i \<noteq> 0" using find_win_Some [OF f] by blast
    obtain ps1 where u: "unmap_win opts fr focus ps a True = Some ps1"
      and inv1: "registry_inv ps1" and g1: "find_win ps1 i = Some None"
      and g2: "window_stack ps1 = window_stack ps" and g3: "a \<in> set (window_stack ps1)"
      and g4: "state (wins ps1 a) = WSTATE_DESTROYING" and g5: "opacity_tgt (wins ps1 a) = 0"
      using destroy_mid_fade [OF inv f h2 h3 h4 h5, of opts fr] by blast
    have g0: "apply_event opts fr (Unmap_win i True focus) ps = Some ps1"
      using u f by simp
    have hs: "set (windows ps1) \<subseteq> set (window_stack ps1)"
      using inv1 unfolding registry_inv_def by blast
    have g6: "\<forall>prev ms io dm new.
                   new \<notin> set (window_stack ps1) \<and> i \<noteq> overlay ps1
                   \<and> ms \<noteq> IsUnviewable \<and> (io \<or> dm)
                   \<and> (prev = 0 \<or> hash_find_int ps1 prev \<noteq> None) \<longrightarrow>
                   (\<exists>ps2. apply_event opts fr (Add_win i prev (Some (ms, io)) dm new) ps1
                             = Some ps2
                      \<and> find_win ps2 i = Some (Some new) \<and> new \<noteq> a
                      \<and> set (window_stack ps2) = insert new (set (window_stack ps1))
                      \<and> wins ps2 a = wins ps1 a
                      \<and> wins ps2 new = win_def\<lparr>wid := i, map_state := ms,
                                                 a_class_input_only := io\<rparr>)"
    proof (intro allI impI)
      fix prev ms io dm new
      assume k: "new \<notin> set (window_stack ps1) \<and> i \<noteq> overlay ps1
                   \<and> ms \<noteq> IsUnviewable \<and> (io \<or> dm)
                   \<and> (prev = 0 \<or> hash_find_int ps1 prev \<noteq> None)"
      then have k1: "new \<notin> set (window_stack ps1)" and k2: "i \<noteq> overlay ps1"
        and k3: "ms \<noteq> IsUnviewable" and k4: "io \<or> dm"
        and k5: "prev = 0 \<or> hash_find_int ps1 prev \<noteq> None" by blast+
      obtain ps2 where a1: "add_win ps1 i prev (Some (ms, io)) dm new = Some ps2"
        and a2: "find_win ps2 i = Some (Some new)"
        and a3: "set (window_stack ps2) = insert new (set (window_stack ps1))"
        and a4: "wins ps2 new = win_def\<lparr>wid := i, map_state := ms, a_class_input_only := io\<rparr>"
        and a5: "\<forall>b. b \<noteq> new \<longrightarrow> wins ps2 b = wins ps1 b"
        using add_win_fresh [OF g1 i0 k2 k1 hs k3 k4 k5] by blast
      have a0: "apply_event opts fr (Add_win i prev (Some (ms, io)) dm new) ps1 = Some ps2"
        using a1 by simp
      have a6: "new \<noteq> a" using k1 g3 by blast
      have a7: "wins ps2 a = wins ps1 a" using a5 a6 by simp
      show "\<exists>ps2. apply_event opts fr (Add_win i prev (Some (ms, io)) dm new) ps1 = Some ps2
                      \<and> find_win ps2 i = Some (Some new) \<and> new \<noteq> a
                      \<and> set (window_stack ps2) = insert new (set (window_stack ps1))
                      \<and> wins ps2 a = wins ps1 a
                      \<and> wins ps2 new = win_def\<lparr>wid := i, map_state := ms,
                                                 a_class_input_only := io\<rparr>"
        by (rule exI [of _ ps2]) (intro conjI; fact)
    qed
    show "\<exists>ps1. apply_event opts fr (Unmap_win i True focus) ps = Some ps1
             \<and> find_win ps1 i = Some None
             \<and> window_stack ps1 = window_stack ps \<and> a \<in> set (window_stack ps1)
             \<and> state (wins ps1 a) = WSTATE_DESTROYING \<and> opacity_tgt (wins ps1 a) = 0
             \<and> (\<forall>prev ms io dm new.
                   new \<notin> set (window_stack ps1) \<and> i \<noteq> overlay ps1
                   \<and> ms \<noteq> IsUnviewable \<and> (io \<or> dm)
                   \<and> (prev = 0 \<or> hash_find_int ps1 prev \<noteq> None) \<longrightarrow>
                   (\<exists>ps2. apply_event opts fr (Add_win i prev (Some (ms, io)) dm new) ps1
                             = Some ps2
                      \<and> find_win ps2 i = Some (Some new) \<and> new \<noteq> a
                      \<and> set (window_stack ps2) = insert new (set (window_stack ps1))
                      \<and> wins ps2 a = wins ps1 a
                      \<and> wins ps2 new = win_def\<lparr>wid := i, map_state := ms,
                                                 a_class_input_only := io\<rparr>))"
      by (rule exI [of _ ps1]) (intro conjI; fact)
  qed
  have c4: "\<forall>a ev ps1.
          a \<in> set (window_stack ps) \<and> state (wins ps a) = WSTATE_DESTROYING
          \<and> event_ok ps ev \<and> apply_event opts fr ev ps = Some ps1 \<longrightarrow>
          (if ev = Skip_fading a
              \<or> ev = Check_fade a \<and> opacity (wins ps a) = opacity_tgt (wins ps a)
           then a \<notin> set (window_stack ps1)
           else a \<in> set (window_stack ps1) \<and> state (wins ps1 a) = WSTATE_DESTROYING)"
  proof (intro allI impI)
    fix a ev ps1
    assume h: "a \<in> set (window_stack ps) \<and> state (wins ps a) = WSTATE_DESTROYING
          \<and> event_ok ps ev \<and> apply_event opts fr ev ps = Some ps1"
    then have h1: "a \<in> set (window_stack ps)" and h2: "state (wins ps a) = WSTATE_DESTROYING"
      and h3: "event_ok ps ev" and h4: "apply_event opts fr ev ps = Some ps1" by blast+
    show "if ev = Skip_fading a
              \<or> ev = Check_fade a \<and> opacity (wins ps a) = opacity_tgt (wins ps a)
           then a \<notin> set (window_stack ps1)
           else a \<in> set (window_stack ps1) \<and> state (wins ps1 a) = WSTATE_DESTROYING"
    proof (cases "ev = Skip_fading a
              \<or> ev = Check_fade a \<and> opacity (wins ps a) = opacity_tgt (wins ps a)")
      case True
      show ?thesis using destroying_leaves [OF inv h2 h4 True] True by simp
    next
      case False
      show ?thesis using destroying_stays [OF inv h1 h2 h3 h4 False] False by simp
    qed
  qed
  show ?thesis by (intro conjI) (rule c1, rule c2, rule c3, rule c4)
qed

lemma registry_example_ok:
  "events_ok registry_example_opts False registry_example_run (session_init True 0)"
  by (simp add: registry_example_run_def registry_example_opts_def registry_example_show_def
      session_init_def add_win_def find_win_def hash_find_int_def unmap_win_def Let_def
      upd_win_def win_def_def win_calc_opacity_target_def touches_def
      win_check_fade_finished_def)

lemma registry_example_result:
  "\<exists>ps. run registry_example_opts False registry_example_run (session_init True 0) = Some ps
     \<and> window_stack ps = [2, 1] \<and> windows ps = [2]
     \<and> wid (wins ps 1) = 16 \<and> state (wins ps 1) = WSTATE_DESTROYING
     \<and> opacity (wins ps 1) = 1 / 2 \<and> opacity_tgt (wins ps 1) = 0
     \<and> wid (wins ps 2) = 16 \<and> state (wins ps 2) = WSTATE_UNMAPPED"
  by (simp add: registry_example_run_def registry_example_opts_def registry_example_show_def
      session_init_def add_win_def find_win_def hash_find_int_def unmap_win_def Let_def
      upd_win_def win_def_def win_calc_opacity_target_def touches_def
      win_check_fade_finished_def)

theorem destroyed_window_registry_witness:
  "events_ok registry_example_opts False registry_example_run (session_init True 0)
   \<and> (\<exists>ps. run registry_example_opts False registry_example_run (session_init True 0) = Some ps
        \<and> window_stack ps = [2, 1]
        \<and> find_win ps 16 = Some (Some 2)
        \<and> wid (wins ps 1) = 16 \<and> state (wins ps 1) = WSTATE_DESTROYING
        \<and> wid (wins ps 2) = 16 \<and> state (wins ps 2) \<noteq> WSTATE_DESTROYING
        \<and> apply_event registry_example_opts False (Check_fade 1) ps = Some ps)"
proof -
  obtain ps where
    r: "run registry_example_opts False registry_example_run (session_init True 0) = Some ps"
    and s: "window_stack ps = [2, 1]" and h: "windows ps = [2]"
    and w1: "wid (wins ps 1) = 16" "state (wins ps 1) = WSTATE_DESTROYING"
      "opacity (wins ps 1) = 1 / 2" "opacity_tgt (wins ps 1) = 0"
    and w2: "wid (wins ps 2) = 16" "state (wins ps 2) = WSTATE_UNMAPPED"
    using registry_example_result by blast
  note t = destroyed_window_registry [OF registry_example_ok r]
  have f: "find_win ps 16 = Some (Some 2)"
    using h w2 by (simp add: find_win_def hash_find_int_def)
  have n2: "state (wins ps 2) \<noteq> WSTATE_DESTROYING"
    using t f by blast
  have c: "apply_event registry_example_opts False (Check_fade 1) ps = Some ps"
    using w1 by (simp add: win_check_fade_finished_def Let_def)
  show ?thesis
    using registry_example_ok r s f w1(1,2) w2(1) n2 c by blast
qed

end
